theory Spec2Isabelle
  imports Main "HOL-Library.Word" "HOL-Library.AList" "HOL-Library.Extended_Nat"
begin

section \<open>Common types\<close>

text \<open>
  \<open>frame_id_t\<close> and \<open>page_id_t\<close> are the 32-bit signed integers of the code base; the
  functions below only compare them, use them as keys and, for page ids, count upwards, so
  they are modelled as \<open>int\<close>. \<open>size_t\<close> is the unsigned 64-bit word: its subtraction
  wraps around, as it does in \<open>Evict\<close> and in the \<open>curr_size_\<close> counter. A member
  \<open>name_\<close> of the source is the field \<open>name\<close> here, with a prefix where two classes
  share a member name.
\<close>

type_synonym frame_id_t = int
type_synonym page_id_t = int
type_synonym size_t = "64 word"

definition INVALID_FRAME_ID :: frame_id_t where
  "INVALID_FRAME_ID = - 1"

definition INVALID_PAGE_ID :: page_id_t where
  "INVALID_PAGE_ID = - 1"

text \<open>
  What a call can end in besides a value: the two exception types the replacer throws, the
  undefined behaviour of \<open>front()\<close> on an empty list, of going through a null pointer or of
  using an object that is not alive, the \<open>std::future_error\<close> of setting a promise twice, and
  an exception of the disk manager that leaves the worker's thread, which has no handler.
\<close>

datatype failure =
  OUT_OF_RANGE | INVALID | UNDEFINED | PROMISE_ALREADY_SATISFIED | UNCAUGHT_EXCEPTION

definition front :: "'a list \<Rightarrow> failure + 'a" where
  "front xs = (case xs of [] \<Rightarrow> Inl UNDEFINED | x # _ \<Rightarrow> Inr x)"

section \<open>LRUKReplacer (lru\_k\_replacer.cpp)\<close>

text \<open>
  A node of the replacer. A node made by \<open>node_store_[frame_id]\<close> starts with an empty
  history and is not evictable; \<open>RecordAccess\<close> sets its \<open>fid\<close> at once.
\<close>

record LRUKNode =
  history :: "size_t list"
  fid :: frame_id_t
  is_evictable :: bool

definition default_node :: LRUKNode where
  "default_node = \<lparr>history = [], fid = 0, is_evictable = False\<rparr>"

text \<open>
  \<open>node_store\<close> is an unordered map that \<open>Evict\<close> iterates over. It is an association
  list here; the order of the list is the order of the iteration, which the C++ library
  leaves open, so nothing below depends on it.
\<close>

record LRUKReplacer =
  node_store :: "(frame_id_t \<times> LRUKNode) list"
  current_timestamp :: size_t
  curr_size :: size_t
  replacer_size :: size_t
  replacer_k :: size_t

definition LRUKReplacer_new :: "size_t \<Rightarrow> size_t \<Rightarrow> LRUKReplacer" where
  "LRUKReplacer_new num_frames k =
     \<lparr>node_store = [], current_timestamp = 0, curr_size = 0,
      replacer_size = num_frames, replacer_k = k\<rparr>"

definition inf_distance :: size_t where
  "inf_distance = - 1"

text \<open>
  The distance of a node in the loop of \<open>Evict\<close>:
  \<open>node.history_.size() < k_ ? inf : current_timestamp_ - node.history_.front()\<close>.
\<close>

definition distance_of :: "LRUKReplacer \<Rightarrow> LRUKNode \<Rightarrow> failure + size_t" where
  "distance_of r node =
     (if length (history node) < unat (replacer_k r) then Inr inf_distance
      else (case front (history node) of
              Inl e \<Rightarrow> Inl e
            | Inr t \<Rightarrow> Inr (current_timestamp r - t)))"

text \<open>
  The third disjunct of the loop's condition,
  \<open>node.history_.front() < node_store_[victim_id].history_.front()\<close>. It is evaluated only
  when the first two disjuncts are false. Were \<open>victim_id\<close> not a key, \<open>operator[]\<close> would
  add an empty node, whose \<open>front()\<close> is undefined.
\<close>

definition front_before_victim ::
  "LRUKReplacer \<Rightarrow> LRUKNode \<Rightarrow> frame_id_t \<Rightarrow> failure + bool" where
  "front_before_victim r node victim_id =
     (case front (history node) of
        Inl e \<Rightarrow> Inl e
      | Inr t \<Rightarrow>
          (case map_of (node_store r) victim_id of
             None \<Rightarrow> Inl UNDEFINED
           | Some vnode \<Rightarrow>
               (case front (history vnode) of
                  Inl e \<Rightarrow> Inl e
                | Inr tv \<Rightarrow> Inr (t < tv))))"

text \<open>One round of the loop; the pair is \<open>(victim_id, max_distance)\<close>.\<close>

definition evict_step ::
  "LRUKReplacer \<Rightarrow> frame_id_t \<times> LRUKNode \<Rightarrow> frame_id_t \<times> size_t \<Rightarrow>
     failure + (frame_id_t \<times> size_t)" where
  "evict_step r entry acc =
     (let node = snd entry; victim_id = fst acc; max_distance = snd acc in
      if \<not> is_evictable node then Inr acc
      else
        (case distance_of r node of
           Inl e \<Rightarrow> Inl e
         | Inr distance \<Rightarrow>
             if victim_id = INVALID_FRAME_ID \<or> max_distance < distance
             then Inr (fid node, distance)
             else if max_distance = distance
             then (case front_before_victim r node victim_id of
                     Inl e \<Rightarrow> Inl e
                   | Inr True \<Rightarrow> Inr (fid node, distance)
                   | Inr False \<Rightarrow> Inr acc)
             else Inr acc))"

fun evict_scan ::
  "LRUKReplacer \<Rightarrow> (frame_id_t \<times> LRUKNode) list \<Rightarrow> frame_id_t \<times> size_t \<Rightarrow>
     failure + (frame_id_t \<times> size_t)" where
  "evict_scan r [] acc = Inr acc"
| "evict_scan r (entry # rest) acc =
     (case evict_step r entry acc of
        Inl e \<Rightarrow> Inl e
      | Inr acc' \<Rightarrow> evict_scan r rest acc')"

text \<open>
  \<open>Evict\<close> returns the replacer and \<open>Some victim\<close> where the code returns true and writes
  \<open>*frame_id\<close>, and \<open>None\<close> where it returns false and leaves \<open>*frame_id\<close> alone.
\<close>

definition Evict :: "LRUKReplacer \<Rightarrow> failure + (LRUKReplacer \<times> frame_id_t option)" where
  "Evict r =
     (case evict_scan r (node_store r) (INVALID_FRAME_ID, 0) of
        Inl e \<Rightarrow> Inl e
      | Inr acc \<Rightarrow>
          if fst acc \<noteq> INVALID_FRAME_ID
          then Inr (r\<lparr>node_store := AList.delete (fst acc) (node_store r),
                      curr_size := curr_size r - 1\<rparr>, Some (fst acc))
          else Inr (r, None))"

text \<open>
  The range check shared by \<open>RecordAccess\<close>, \<open>SetEvictable\<close> and \<open>Remove\<close>:
  \<open>frame_id < 0 || static_cast<size_t>(frame_id) > replacer_size_\<close>.
\<close>

definition out_of_range :: "LRUKReplacer \<Rightarrow> frame_id_t \<Rightarrow> bool" where
  "out_of_range r frame_id \<longleftrightarrow> frame_id < 0 \<or> (word_of_int frame_id :: size_t) > replacer_size r"

text \<open>The loop \<open>while (node.history_.size() > k_) node.history_.pop_front()\<close>.\<close>

fun trim_history :: "size_t \<Rightarrow> size_t list \<Rightarrow> size_t list" where
  "trim_history k [] = []"
| "trim_history k (t # ts) = (if length (t # ts) > unat k then trim_history k ts else t # ts)"

definition RecordAccess :: "LRUKReplacer \<Rightarrow> frame_id_t \<Rightarrow> failure + LRUKReplacer" where
  "RecordAccess r frame_id =
     (if out_of_range r frame_id then Inl OUT_OF_RANGE
      else
        (let ts = current_timestamp r + 1;
             node = (case map_of (node_store r) frame_id of
                       None \<Rightarrow> default_node
                     | Some n \<Rightarrow> n);
             node' = node\<lparr>fid := frame_id,
                          history := trim_history (replacer_k r) (history node @ [ts])\<rparr>
         in Inr (r\<lparr>current_timestamp := ts,
                    node_store := AList.update frame_id node' (node_store r)\<rparr>)))"

definition SetEvictable :: "LRUKReplacer \<Rightarrow> frame_id_t \<Rightarrow> bool \<Rightarrow> failure + LRUKReplacer" where
  "SetEvictable r frame_id set_evictable =
     (if out_of_range r frame_id then Inl OUT_OF_RANGE
      else
        (case map_of (node_store r) frame_id of
           None \<Rightarrow> Inr r
         | Some node \<Rightarrow>
             if is_evictable node \<noteq> set_evictable
             then Inr (r\<lparr>node_store :=
                           AList.update frame_id (node\<lparr>is_evictable := set_evictable\<rparr>)
                             (node_store r),
                         curr_size :=
                           (if set_evictable then curr_size r + 1 else curr_size r - 1)\<rparr>)
             else Inr r))"

definition Remove :: "LRUKReplacer \<Rightarrow> frame_id_t \<Rightarrow> failure + LRUKReplacer" where
  "Remove r frame_id =
     (if out_of_range r frame_id then Inl OUT_OF_RANGE
      else
        (case map_of (node_store r) frame_id of
           None \<Rightarrow> Inr r
         | Some node \<Rightarrow>
             if \<not> is_evictable node then Inl INVALID
             else Inr (r\<lparr>node_store := AList.delete frame_id (node_store r),
                         curr_size := curr_size r - 1\<rparr>)))"

definition Size :: "LRUKReplacer \<Rightarrow> size_t" where
  "Size r = curr_size r"


subsection \<open>What the spec says of Evict\<close>

text \<open>
  The front of a node's history, and the backward K-distance in the spec's words:
  the current timestamp minus the front of the history when the history has reached K
  entries, and infinity otherwise.
\<close>

definition oldest :: "LRUKNode \<Rightarrow> size_t" where
  "oldest n = (case history n of [] \<Rightarrow> 0 | t # _ \<Rightarrow> t)"

definition backward_k_distance :: "LRUKReplacer \<Rightarrow> LRUKNode \<Rightarrow> enat" where
  "backward_k_distance r n =
     (if length (history n) < unat (replacer_k r) then \<infinity>
      else enat (unat (current_timestamp r) - unat (oldest n)))"

text \<open>
  The states the replacer gets into: the keys of the store are distinct and not negative,
  every node carries its key, has been accessed, and its timestamps lie between 1 and the
  current timestamp. \<open>LRUKReplacer_new\<close> starts there, and the four operations stay there
  as long as K is positive and the timestamp has not wrapped around (lemmas \<open>wf_*\<close>).
\<close>

definition wf_replacer :: "LRUKReplacer \<Rightarrow> bool" where
  "wf_replacer r \<longleftrightarrow>
     distinct (map fst (node_store r)) \<and>
     (\<forall>e \<in> set (node_store r).
        fid (snd e) = fst e \<and> 0 \<le> fst e \<and> history (snd e) \<noteq> [] \<and>
        (\<forall>t \<in> set (history (snd e)). 0 < t \<and> t \<le> current_timestamp r))"

text \<open>The distance as the loop computes it, for a node that has a history.\<close>

definition wdist :: "LRUKReplacer \<Rightarrow> LRUKNode \<Rightarrow> size_t" where
  "wdist r n = (if length (history n) < unat (replacer_k r) then inf_distance
                else current_timestamp r - oldest n)"

text \<open>\<open>beats r v n\<close>: the loop prefers \<open>v\<close> to \<open>n\<close>, or they are the same to it.\<close>

definition beats :: "LRUKReplacer \<Rightarrow> LRUKNode \<Rightarrow> LRUKNode \<Rightarrow> bool" where
  "beats r v n \<longleftrightarrow>
     wdist r n < wdist r v \<or> (wdist r n = wdist r v \<and> oldest v \<le> oldest n)"

text \<open>What holds of \<open>(victim_id, max_distance)\<close> after the loop has gone through \<open>seen\<close>.\<close>

definition scan_inv ::
  "LRUKReplacer \<Rightarrow> (frame_id_t \<times> LRUKNode) list \<Rightarrow> frame_id_t \<times> size_t \<Rightarrow> bool" where
  "scan_inv r seen acc \<longleftrightarrow>
     (if fst acc = INVALID_FRAME_ID then \<forall>e \<in> set seen. \<not> is_evictable (snd e)
      else \<exists>v. (fst acc, v) \<in> set seen \<and> is_evictable v \<and> wdist r v = snd acc \<and>
             (\<forall>e \<in> set seen. is_evictable (snd e) \<longrightarrow> beats r v (snd e)))"

text \<open>
  Scenario 4 of the spec: K = 2, the frames 0, 1 and 2 accessed once each in this order and
  then made evictable.
\<close>

definition and_then :: "failure + 'a \<Rightarrow> ('a \<Rightarrow> failure + 'b) \<Rightarrow> failure + 'b" where
  "and_then x f = (case x of Inl e \<Rightarrow> Inl e | Inr a \<Rightarrow> f a)"

definition three_once :: LRUKReplacer where
  "three_once =
     \<lparr>node_store =
        [(0, \<lparr>history = [1], fid = 0, is_evictable = True\<rparr>),
         (1, \<lparr>history = [2], fid = 1, is_evictable = True\<rparr>),
         (2, \<lparr>history = [3], fid = 2, is_evictable = True\<rparr>)],
      current_timestamp = 3, curr_size = 3, replacer_size = 7, replacer_k = 2\<rparr>"


section \<open>BufferPoolManager (buffer\_pool\_manager.cpp)\<close>

text \<open>
  A frame of the pool: the class \<open>Page\<close>, with its buffer as a list of bytes.
  \<open>ResetMemory\<close> zeroes the buffer. \<open>strlen(page->GetData()) > 0\<close> holds exactly when the
  first byte of the buffer is not zero.
\<close>

record Page =
  data :: "8 word list"
  page_id :: page_id_t
  pin_count :: int
  is_dirty :: bool

definition ResetMemory :: "Page \<Rightarrow> Page" where
  "ResetMemory p = p\<lparr>data := replicate (length (data p)) 0\<rparr>"

definition strlen_positive :: "8 word list \<Rightarrow> bool" where
  "strlen_positive d = (case d of [] \<Rightarrow> False | c # _ \<Rightarrow> c \<noteq> 0)"

text \<open>
  What the pool hands to the disk: a write carries the page id and the bytes of the buffer at
  the moment of the call, a read the page id, a deallocation the page id.
\<close>

datatype disk_call =
  WriteRequest page_id_t "8 word list"
| ReadRequest page_id_t
| Deallocate page_id_t

text \<open>
  The pool. \<open>pages\<close> is the frame array, addressed by frame id; \<open>page_table\<close> the unordered
  map from page ids to frame ids; \<open>free_list\<close> the list of free frames. The disk behind the
  scheduler is the image \<open>disk\<close> together with \<open>disk_calls\<close>, the calls made to it in order.
\<close>

record BufferPoolManager =
  pool_size :: size_t
  pages :: "frame_id_t \<Rightarrow> Page"
  page_table :: "page_id_t \<rightharpoonup> frame_id_t"
  free_list :: "frame_id_t list"
  replacer :: LRUKReplacer
  next_page_id :: page_id_t
  disk :: "page_id_t \<Rightarrow> 8 word list"
  disk_calls :: "disk_call list"

text \<open>
  Modelled from the spec: \<open>DiskSchedule\<close>, the helper of the pool that hands a request to
  the disk scheduler, is declared in buffer\_pool\_manager.h, which is not among the sources.
  By the spec the single worker serves the requests in the order they are enqueued, a write
  copying the buffer to the disk and a read copying the disk's page into the buffer; the
  model serves the request at the call. The request is
  \<open>{is_write, page->GetData(), page->GetPageId(), promise}\<close>, so it is given here by the
  direction, the frame whose buffer it points to, and the page id.
\<close>

definition DiskSchedule ::
  "BufferPoolManager \<Rightarrow> bool \<Rightarrow> frame_id_t \<Rightarrow> page_id_t \<Rightarrow> BufferPoolManager" where
  "DiskSchedule b is_write frame_id pid =
     (if is_write
      then b\<lparr>disk := (disk b)(pid := data (pages b frame_id)),
              disk_calls := disk_calls b @ [WriteRequest pid (data (pages b frame_id))]\<rparr>
      else b\<lparr>pages := (pages b)(frame_id := (pages b frame_id)\<lparr>data := disk b pid\<rparr>),
              disk_calls := disk_calls b @ [ReadRequest pid]\<rparr>)"

text \<open>
  Modelled from the spec: \<open>DeallocatePage\<close> is declared in buffer\_pool\_manager.h, which is
  not among the sources; by the spec it notifies the disk layer to deallocate the page.
\<close>

definition DeallocatePage :: "BufferPoolManager \<Rightarrow> page_id_t \<Rightarrow> BufferPoolManager" where
  "DeallocatePage b pid = b\<lparr>disk_calls := disk_calls b @ [Deallocate pid]\<rparr>"

text \<open>
  The constructor. A fresh \<open>Page\<close> has a zeroed buffer, the invalid page id, no pin and is
  clean; the size of the buffer is a constant of the code base, a parameter here.
\<close>

definition new_Page :: "nat \<Rightarrow> Page" where
  "new_Page page_size =
     \<lparr>data = replicate page_size 0, page_id = INVALID_PAGE_ID, pin_count = 0, is_dirty = False\<rparr>"

definition BufferPoolManager_new ::
  "nat \<Rightarrow> nat \<Rightarrow> size_t \<Rightarrow> (page_id_t \<Rightarrow> 8 word list) \<Rightarrow> BufferPoolManager" where
  "BufferPoolManager_new page_size n replacer_k0 disk0 =
     \<lparr>pool_size = of_nat n,
      pages = (\<lambda>_. new_Page page_size),
      page_table = Map.empty,
      free_list = map int [0..<n],
      replacer = LRUKReplacer_new (of_nat n) replacer_k0,
      next_page_id = 0,
      disk = disk0,
      disk_calls = []\<rparr>"

definition AllocatePage :: "BufferPoolManager \<Rightarrow> BufferPoolManager \<times> page_id_t" where
  "AllocatePage b = (b\<lparr>next_page_id := next_page_id b + 1\<rparr>, next_page_id b)"

definition RequestFrameId :: "BufferPoolManager \<Rightarrow> failure + (BufferPoolManager \<times> frame_id_t)" where
  "RequestFrameId b =
     (case free_list b of
        frame_id # rest \<Rightarrow> Inr (b\<lparr>free_list := rest\<rparr>, frame_id)
      | [] \<Rightarrow>
          if Size (replacer b) > 0
          then (case Evict (replacer b) of
                  Inl e \<Rightarrow> Inl e
                | Inr (r', res) \<Rightarrow>
                    Inr (b\<lparr>replacer := r'\<rparr>,
                         (case res of None \<Rightarrow> INVALID_FRAME_ID | Some victim \<Rightarrow> victim)))
          else Inr (b, INVALID_FRAME_ID))"

definition InitPageOnBufferPool ::
  "BufferPoolManager \<Rightarrow> page_id_t \<Rightarrow> frame_id_t \<Rightarrow> failure + BufferPoolManager" where
  "InitPageOnBufferPool b pid frame_id =
     (let b1 = b\<lparr>pages := (pages b)(frame_id :=
                   (pages b frame_id)\<lparr>page_id := pid, is_dirty := False, pin_count := 1\<rparr>)\<rparr>
      in case SetEvictable (replacer b1) frame_id False of
           Inl e \<Rightarrow> Inl e
         | Inr r1 \<Rightarrow>
             (case RecordAccess r1 frame_id of
                Inl e \<Rightarrow> Inl e
              | Inr r2 \<Rightarrow>
                  Inr (b1\<lparr>replacer := r2, page_table := (page_table b1)(pid \<mapsto> frame_id)\<rparr>)))"

text \<open>
  \<open>NewPage\<close> returns \<open>Some (page id, frame)\<close> where the code writes \<open>*page_id\<close> and returns
  the address of the frame, and \<open>None\<close> where it returns the null pointer.
\<close>

definition NewPage ::
  "BufferPoolManager \<Rightarrow> failure + (BufferPoolManager \<times> (page_id_t \<times> frame_id_t) option)" where
  "NewPage b =
     (case RequestFrameId b of
        Inl e \<Rightarrow> Inl e
      | Inr (b1, frame_id) \<Rightarrow>
          if frame_id = INVALID_FRAME_ID then Inr (b1, None)
          else
            (let page = pages b1 frame_id;
                 b2 = (if is_dirty page \<and> strlen_positive (data page)
                       then DiskSchedule b1 True frame_id (page_id page) else b1);
                 b3 = b2\<lparr>page_table := (page_table b2)(page_id page := None)\<rparr>;
                 b4 = b3\<lparr>pages := (pages b3)(frame_id := ResetMemory (pages b3 frame_id))\<rparr>;
                 pid = next_page_id b4
             in case InitPageOnBufferPool b4 pid frame_id of
                  Inl e \<Rightarrow> Inl e
                | Inr b5 \<Rightarrow> Inr (fst (AllocatePage b5), Some (pid, frame_id))))"

definition FetchPage ::
  "BufferPoolManager \<Rightarrow> page_id_t \<Rightarrow> failure + (BufferPoolManager \<times> frame_id_t option)" where
  "FetchPage b pid =
     (case page_table b pid of
        Some frame_id \<Rightarrow>
          (let page = pages b frame_id;
               b1 = b\<lparr>pages := (pages b)(frame_id := page\<lparr>pin_count := pin_count page + 1\<rparr>)\<rparr>
           in case SetEvictable (replacer b1) frame_id False of
                Inl e \<Rightarrow> Inl e
              | Inr r1 \<Rightarrow>
                  (case RecordAccess r1 frame_id of
                     Inl e \<Rightarrow> Inl e
                   | Inr r2 \<Rightarrow> Inr (b1\<lparr>replacer := r2\<rparr>, Some frame_id)))
      | None \<Rightarrow>
          (case RequestFrameId b of
             Inl e \<Rightarrow> Inl e
           | Inr (b1, frame_id) \<Rightarrow>
               if frame_id = INVALID_FRAME_ID then Inr (b1, None)
               else
                 (let page = pages b1 frame_id;
                      b2 = (if is_dirty page \<and> strlen_positive (data page)
                            then DiskSchedule b1 True frame_id (page_id page) else b1);
                      b3 = b2\<lparr>page_table := (page_table b2)(page_id page := None)\<rparr>;
                      b4 = b3\<lparr>pages := (pages b3)(frame_id := ResetMemory (pages b3 frame_id))\<rparr>
                  in case InitPageOnBufferPool b4 pid frame_id of
                       Inl e \<Rightarrow> Inl e
                     | Inr b5 \<Rightarrow> Inr (DiskSchedule b5 False frame_id pid, Some frame_id))))"

definition UnpinPage ::
  "BufferPoolManager \<Rightarrow> page_id_t \<Rightarrow> bool \<Rightarrow> failure + (BufferPoolManager \<times> bool)" where
  "UnpinPage b pid dirty =
     (case page_table b pid of
        None \<Rightarrow> Inr (b, False)
      | Some frame_id \<Rightarrow>
          (let page = pages b frame_id in
           if pin_count page \<le> 0 then Inr (b, False)
           else
             (let page1 = page\<lparr>pin_count := pin_count page - 1\<rparr> in
              case (if pin_count page1 = 0 then SetEvictable (replacer b) frame_id True
                    else Inr (replacer b)) of
                Inl e \<Rightarrow> Inl e
              | Inr r1 \<Rightarrow>
                  Inr (b\<lparr>pages := (pages b)(frame_id := page1\<lparr>is_dirty := dirty\<rparr>),
                         replacer := r1\<rparr>, True))))"

definition FlushPage :: "BufferPoolManager \<Rightarrow> page_id_t \<Rightarrow> BufferPoolManager \<times> bool" where
  "FlushPage b pid =
     (case page_table b pid of
        None \<Rightarrow> (b, False)
      | Some frame_id \<Rightarrow>
          (let b1 = DiskSchedule b True frame_id (page_id (pages b frame_id))
           in (b1\<lparr>pages := (pages b1)(frame_id := (pages b1 frame_id)\<lparr>is_dirty := False\<rparr>)\<rparr>,
               True)))"

definition DeletePage ::
  "BufferPoolManager \<Rightarrow> page_id_t \<Rightarrow> failure + (BufferPoolManager \<times> bool)" where
  "DeletePage b pid =
     (case page_table b pid of
        None \<Rightarrow> Inr (b, True)
      | Some frame_id \<Rightarrow>
          if pin_count (pages b frame_id) > 0 then Inr (b, False)
          else
            (case Remove (replacer b) frame_id of
               Inl e \<Rightarrow> Inl e
             | Inr r1 \<Rightarrow>
                 (let b1 = b\<lparr>page_table := (page_table b)(pid := None),
                              replacer := r1,
                              free_list := free_list b @ [frame_id]\<rparr>;
                      b2 = b1\<lparr>pages := (pages b1)(frame_id :=
                                  (ResetMemory (pages b1 frame_id))
                                    \<lparr>page_id := INVALID_PAGE_ID, pin_count := 0,
                                     is_dirty := False\<rparr>)\<rparr>
                  in Inr (DeallocatePage b2 pid, True))))"


section \<open>Page guards (page\_guard.cpp)\<close>

text \<open>
  A pointer is null or points somewhere. A guard's \<open>page_\<close> points to a frame of the pool;
  its \<open>bpm_\<close> points to the pool, of which there is one.
\<close>

datatype 'a ptr = nullptr | Ptr 'a

record BasicPageGuard =
  bpm :: "unit ptr"
  page :: "frame_id_t ptr"
  guard_is_dirty :: bool

text \<open>
  Modelled from the spec: the declarations of page\_guard.h are not among the sources. A
  guard that no constructor has filled holds null pointers and a clean flag (the spec's
  inert guard), and the constructor from a pool and a page stores the two pointers.
\<close>

definition null_guard :: BasicPageGuard where
  "null_guard = \<lparr>bpm = nullptr, page = nullptr, guard_is_dirty = False\<rparr>"

definition BasicPageGuard_new :: "unit ptr \<Rightarrow> frame_id_t ptr \<Rightarrow> BasicPageGuard" where
  "BasicPageGuard_new b p = \<lparr>bpm = b, page = p, guard_is_dirty = False\<rparr>"

text \<open>
  The calls a guard makes to the pool and to the latch of a frame, and the calls the pool
  makes to the latch when it hands out a guard, in the order they are made. The latch itself is in page.h, which is not among the sources.
\<close>

datatype call =
  UnpinPage_called page_id_t bool
| RLatch_called frame_id_t
| WLatch_called frame_id_t
| RUnlatch_called frame_id_t
| WUnlatch_called frame_id_t

text \<open>
  The world of the guards: the pool, the calls made so far, and the basic guards that are
  alive, by address. An address without an object holds \<open>None\<close>.
\<close>

record world =
  pool :: BufferPoolManager
  calls :: "call list"
  guards :: "nat \<Rightarrow> BasicPageGuard option"

definition call_UnpinPage :: "world \<Rightarrow> page_id_t \<Rightarrow> bool \<Rightarrow> failure + world" where
  "call_UnpinPage w pid dirty =
     (case UnpinPage (pool w) pid dirty of
        Inl e \<Rightarrow> Inl e
      | Inr res \<Rightarrow> Inr (w\<lparr>pool := fst res, calls := calls w @ [UnpinPage_called pid dirty]\<rparr>))"

text \<open>The move constructor: the new guard, and what is left of \<open>that\<close>.\<close>

definition BasicPageGuard_move :: "BasicPageGuard \<Rightarrow> BasicPageGuard \<times> BasicPageGuard" where
  "BasicPageGuard_move that =
     (\<lparr>bpm = bpm that, page = page that, guard_is_dirty = guard_is_dirty that\<rparr>,
      that\<lparr>bpm := nullptr, page := nullptr, guard_is_dirty := False\<rparr>)"

definition BasicPageGuard_Drop ::
  "world \<Rightarrow> BasicPageGuard \<Rightarrow> failure + (world \<times> BasicPageGuard)" where
  "BasicPageGuard_Drop w g =
     (case page g of
        nullptr \<Rightarrow> Inr (w, g)
      | Ptr frame \<Rightarrow>
          (case bpm g of
             nullptr \<Rightarrow> Inl UNDEFINED
           | Ptr _ \<Rightarrow>
               (case call_UnpinPage w (page_id (pages (pool w) frame)) (guard_is_dirty g) of
                  Inl e \<Rightarrow> Inl e
                | Inr w' \<Rightarrow>
                    Inr (w', g\<lparr>page := nullptr, bpm := nullptr, guard_is_dirty := False\<rparr>))))"

text \<open>
  The operations on guards as objects. \<open>this\<close> and \<open>that\<close> are addresses; the move
  constructor makes a new object at \<open>this\<close>, the destructor ends the object. Using an
  address that holds no object, or constructing where one is, is not a run of the program.
\<close>

definition Drop_at :: "world \<Rightarrow> nat \<Rightarrow> failure + world" where
  "Drop_at w this =
     (case guards w this of
        None \<Rightarrow> Inl UNDEFINED
      | Some g \<Rightarrow>
          (case BasicPageGuard_Drop w g of
             Inl e \<Rightarrow> Inl e
           | Inr res \<Rightarrow> Inr ((fst res)\<lparr>guards := (guards (fst res))(this \<mapsto> snd res)\<rparr>)))"

definition move_construct_at :: "world \<Rightarrow> nat \<Rightarrow> nat \<Rightarrow> failure + world" where
  "move_construct_at w this that =
     (case (guards w this, guards w that) of
        (None, Some g) \<Rightarrow>
          Inr (w\<lparr>guards := (guards w)(this \<mapsto> fst (BasicPageGuard_move g),
                                        that \<mapsto> snd (BasicPageGuard_move g))\<rparr>)
      | _ \<Rightarrow> Inl UNDEFINED)"

definition move_assign_at :: "world \<Rightarrow> nat \<Rightarrow> nat \<Rightarrow> failure + world" where
  "move_assign_at w this that =
     (case (guards w this, guards w that) of
        (Some _, Some _) \<Rightarrow>
          if this \<noteq> that
          then (case Drop_at w this of
                  Inl e \<Rightarrow> Inl e
                | Inr w1 \<Rightarrow>
                    (case (guards w1 this, guards w1 that) of
                       (Some g1, Some g2) \<Rightarrow>
                         Inr (w1\<lparr>guards := (guards w1)
                                (this \<mapsto> g1\<lparr>bpm := bpm g2, page := page g2,
                                              guard_is_dirty := guard_is_dirty g2\<rparr>,
                                 that \<mapsto> g2\<lparr>bpm := nullptr, page := nullptr,
                                              guard_is_dirty := False\<rparr>)\<rparr>)
                     | _ \<Rightarrow> Inl UNDEFINED))
          else Inr w
      | _ \<Rightarrow> Inl UNDEFINED)"

definition destroy_at :: "world \<Rightarrow> nat \<Rightarrow> failure + world" where
  "destroy_at w this =
     (case Drop_at w this of
        Inl e \<Rightarrow> Inl e
      | Inr w1 \<Rightarrow> Inr (w1\<lparr>guards := (guards w1)(this := None)\<rparr>))"

datatype guard_op =
  MoveConstruct nat nat
| MoveAssign nat nat
| Drop nat
| Destroy nat

fun guard_step :: "world \<Rightarrow> guard_op \<Rightarrow> failure + world" where
  "guard_step w (MoveConstruct this that) = move_construct_at w this that"
| "guard_step w (MoveAssign this that) = move_assign_at w this that"
| "guard_step w (Drop this) = Drop_at w this"
| "guard_step w (Destroy this) = destroy_at w this"

fun guard_run :: "world \<Rightarrow> guard_op list \<Rightarrow> failure + world" where
  "guard_run w [] = Inr w"
| "guard_run w (x # xs) =
     (case guard_step w x of Inl e \<Rightarrow> Inl e | Inr w' \<Rightarrow> guard_run w' xs)"

text \<open>
  The guards that hold a frame of page \<open>pid\<close>, and the number of \<open>UnpinPage\<close> calls made
  for \<open>pid\<close>.
\<close>

definition holds_page :: "world \<Rightarrow> page_id_t \<Rightarrow> BasicPageGuard option \<Rightarrow> bool" where
  "holds_page w pid x =
     (case x of
        None \<Rightarrow> False
      | Some g \<Rightarrow> (case page g of nullptr \<Rightarrow> False
                   | Ptr frame \<Rightarrow> page_id (pages (pool w) frame) = pid))"

definition holders :: "world \<Rightarrow> page_id_t \<Rightarrow> nat set" where
  "holders w pid = {a. holds_page w pid (guards w a)}"

definition unpin_calls :: "world \<Rightarrow> page_id_t \<Rightarrow> nat" where
  "unpin_calls w pid =
     length (filter (\<lambda>c. case c of UnpinPage_called p _ \<Rightarrow> p = pid | _ \<Rightarrow> False) (calls w))"

subsection \<open>Read and write guards\<close>

record ReadPageGuard =
  r_guard :: BasicPageGuard

record WritePageGuard =
  w_guard :: BasicPageGuard

text \<open>
  The constructors \<open>ReadPageGuard(bpm, page) {}\<close> and \<open>WritePageGuard(bpm, page) {}\<close> have
  empty bodies and no initialisers: the inner guard is the one no constructor has filled.
\<close>

definition ReadPageGuard_new :: "unit ptr \<Rightarrow> frame_id_t ptr \<Rightarrow> ReadPageGuard" where
  "ReadPageGuard_new b p = \<lparr>r_guard = null_guard\<rparr>"

definition WritePageGuard_new :: "unit ptr \<Rightarrow> frame_id_t ptr \<Rightarrow> WritePageGuard" where
  "WritePageGuard_new b p = \<lparr>w_guard = null_guard\<rparr>"

text \<open>
  \<open>UpgradeRead\<close> and \<open>UpgradeWrite\<close> return \<open>{bpm_, page_}\<close>: the basic guard after the
  call, and the new guard.
\<close>

definition UpgradeRead :: "BasicPageGuard \<Rightarrow> BasicPageGuard \<times> ReadPageGuard" where
  "UpgradeRead g = (g, ReadPageGuard_new (bpm g) (page g))"

definition UpgradeWrite :: "BasicPageGuard \<Rightarrow> BasicPageGuard \<times> WritePageGuard" where
  "UpgradeWrite g = (g, WritePageGuard_new (bpm g) (page g))"

definition ReadPageGuard_Drop ::
  "world \<Rightarrow> ReadPageGuard \<Rightarrow> failure + (world \<times> ReadPageGuard)" where
  "ReadPageGuard_Drop w rg =
     (case page (r_guard rg) of
        nullptr \<Rightarrow> Inr (w, rg)
      | Ptr frame \<Rightarrow>
          (case bpm (r_guard rg) of
             nullptr \<Rightarrow> Inl UNDEFINED
           | Ptr _ \<Rightarrow>
               (case call_UnpinPage w (page_id (pages (pool w) frame))
                       (guard_is_dirty (r_guard rg)) of
                  Inl e \<Rightarrow> Inl e
                | Inr w1 \<Rightarrow>
                    Inr (w1\<lparr>calls := calls w1 @ [RUnlatch_called frame]\<rparr>,
                         rg\<lparr>r_guard := (r_guard rg)\<lparr>page := nullptr, bpm := nullptr\<rparr>\<rparr>))))"

definition WritePageGuard_Drop ::
  "world \<Rightarrow> WritePageGuard \<Rightarrow> failure + (world \<times> WritePageGuard)" where
  "WritePageGuard_Drop w wg =
     (case page (w_guard wg) of
        nullptr \<Rightarrow> Inr (w, wg)
      | Ptr frame \<Rightarrow>
          (case bpm (w_guard wg) of
             nullptr \<Rightarrow> Inl UNDEFINED
           | Ptr _ \<Rightarrow>
               (case call_UnpinPage w (page_id (pages (pool w) frame))
                       (guard_is_dirty (w_guard wg)) of
                  Inl e \<Rightarrow> Inl e
                | Inr w1 \<Rightarrow>
                    Inr (w1\<lparr>calls := calls w1 @ [WUnlatch_called frame]\<rparr>,
                         wg\<lparr>w_guard := (w_guard wg)\<lparr>page := nullptr, bpm := nullptr\<rparr>\<rparr>))))"

text \<open>
  \<open>FetchPageRead\<close> and \<open>FetchPageWrite\<close> of the pool: \<open>FetchPage\<close>, then the latch of
  the page through the pointer \<open>FetchPage\<close> returned (null when the pool is exhausted), then
  the guard \<open>{this, page}\<close>.
\<close>

definition FetchPageRead :: "world \<Rightarrow> page_id_t \<Rightarrow> failure + (world \<times> ReadPageGuard)" where
  "FetchPageRead w pid =
     (case FetchPage (pool w) pid of
        Inl e \<Rightarrow> Inl e
      | Inr res \<Rightarrow>
          (case snd res of
             None \<Rightarrow> Inl UNDEFINED
           | Some frame \<Rightarrow>
               Inr (w\<lparr>pool := fst res, calls := calls w @ [RLatch_called frame]\<rparr>,
                    ReadPageGuard_new (Ptr ()) (Ptr frame))))"

definition FetchPageWrite :: "world \<Rightarrow> page_id_t \<Rightarrow> failure + (world \<times> WritePageGuard)" where
  "FetchPageWrite w pid =
     (case FetchPage (pool w) pid of
        Inl e \<Rightarrow> Inl e
      | Inr res \<Rightarrow>
          (case snd res of
             None \<Rightarrow> Inl UNDEFINED
           | Some frame \<Rightarrow>
               Inr (w\<lparr>pool := fst res, calls := calls w @ [WLatch_called frame]\<rparr>,
                    WritePageGuard_new (Ptr ()) (Ptr frame))))"

section \<open>DiskScheduler (disk\_scheduler.cpp)\<close>

text \<open>
  A request, with the state of its promise: \<open>None\<close> until \<open>set_value\<close> is called, then the
  value. \<open>set_value\<close> on a promise that has a value throws.
\<close>

record DiskRequest =
  is_write :: bool
  req_data :: "8 word list"
  req_page_id :: page_id_t
  callback :: "bool option"

definition set_value :: "bool option \<Rightarrow> bool \<Rightarrow> failure + bool option" where
  "set_value promise v =
     (case promise of None \<Rightarrow> Inr (Some v) | Some _ \<Rightarrow> Inl PROMISE_ALREADY_SATISFIED)"

text \<open>
  The disk manager is not among the sources. It is a parameter: a state \<open>'d\<close> and the two
  calls the worker makes. By the spec a call may fail, and the sources do not say how. A
  call that returns gives the disk, the buffer, and whether it succeeded, which the worker
  cannot see since both calls return nothing; a call that throws gives nothing.
\<close>

datatype 'd io = Returns 'd "8 word list" bool | Throws

record 'd DiskManager =
  WritePage :: "'d \<Rightarrow> page_id_t \<Rightarrow> 8 word list \<Rightarrow> 'd io"
  ReadPage :: "'d \<Rightarrow> page_id_t \<Rightarrow> 8 word list \<Rightarrow> 'd io"

text \<open>
  The body of the worker's loop for a request it has taken from the queue. There is no
  handler around the disk manager's call: its exception ends the thread before
  \<open>set_value\<close> is reached.
\<close>

definition serve ::
  "'d DiskManager \<Rightarrow> 'd \<Rightarrow> DiskRequest \<Rightarrow> failure + ('d \<times> DiskRequest)" where
  "serve dm d request =
     (case (if is_write request
            then WritePage dm d (req_page_id request) (req_data request)
            else ReadPage dm d (req_page_id request) (req_data request)) of
        Throws \<Rightarrow> Inl UNCAUGHT_EXCEPTION
      | Returns d1 buffer ok \<Rightarrow>
          (case set_value (callback request) True of
             Inl e \<Rightarrow> Inl e
           | Inr promise \<Rightarrow> Inr (d1, request\<lparr>req_data := buffer, callback := promise\<rparr>)))"

text \<open>
  The loop over what the queue holds, \<open>None\<close> being \<open>std::nullopt\<close>. It ends at the first
  \<open>None\<close>; when the queue runs empty, \<open>Get\<close> blocks and the worker is left waiting. The
  result is the disk, the requests served in order, and how the worker was left; a request
  on which the thread dies gives the failure.
\<close>

datatype worker = Exited | Waiting

fun StartWorkerThread ::
  "'d DiskManager \<Rightarrow> 'd \<Rightarrow> DiskRequest option list \<Rightarrow>
     failure + ('d \<times> DiskRequest list \<times> worker)" where
  "StartWorkerThread dm d [] = Inr (d, [], Waiting)"
| "StartWorkerThread dm d (None # queue) = Inr (d, [], Exited)"
| "StartWorkerThread dm d (Some request # queue) =
     (case serve dm d request of
        Inl e \<Rightarrow> Inl e
      | Inr (d1, served) \<Rightarrow>
          (case StartWorkerThread dm d1 queue of
             Inl e \<Rightarrow> Inl e
           | Inr (d2, rest, state) \<Rightarrow> Inr (d2, served # rest, state)))"


section \<open>States and notions the properties are stated with\<close>

subsection \<open>The pool\<close>

text \<open>Whether the replacer holds a node that is evictable.\<close>

definition has_evictable :: "LRUKReplacer \<Rightarrow> bool" where
  "has_evictable r \<longleftrightarrow> (\<exists>e \<in> set (node_store r). is_evictable (snd e))"

text \<open>
  \<open>Remove\<close> throws on a frame id out of range and on a node that is not evictable; it
  goes through for a frame that is in range and has no node or an evictable one.
\<close>

definition removable :: "BufferPoolManager \<Rightarrow> frame_id_t \<Rightarrow> bool" where
  "removable b f \<longleftrightarrow> \<not> out_of_range (replacer b) f \<and>
     (\<forall>n. map_of (node_store (replacer b)) f = Some n \<longrightarrow> is_evictable n)"

text \<open>The write that the miss path makes for a dirty victim: none when the buffer starts
  with a zero byte.\<close>

definition victim_write :: "Page \<Rightarrow> disk_call list" where
  "victim_write p =
     (if strlen_positive (data p) then [WriteRequest (page_id p) (data p)] else [])"

text \<open>The state after a call, or the state before it when the call throws.\<close>

definition state_or ::
  "BufferPoolManager \<Rightarrow> failure + (BufferPoolManager \<times> 'a) \<Rightarrow> BufferPoolManager" where
  "state_or b x = (case x of Inl _ \<Rightarrow> b | Inr res \<Rightarrow> fst res)"

text \<open>A client writes into the buffer of a frame it has pinned, through \<open>GetData()\<close>.\<close>

definition write_buffer ::
  "BufferPoolManager \<Rightarrow> frame_id_t \<Rightarrow> 8 word list \<Rightarrow> BufferPoolManager" where
  "write_buffer b frame_id bytes =
     b\<lparr>pages := (pages b)(frame_id := (pages b frame_id)\<lparr>data := bytes\<rparr>)\<rparr>"

text \<open>
  A pool of one frame with pages of four bytes and K = 2, over an empty disk; the same
  pool after \<open>NewPage\<close> (page 0 in frame 0, pinned once), after a further \<open>FetchPage(0)\<close>
  (pinned twice), after \<open>UnpinPage(0, true)\<close> on that, and after \<open>UnpinPage(0, false)\<close>
  on the pool with one pin.
\<close>

definition pool0 :: BufferPoolManager where
  "pool0 = BufferPoolManager_new 4 1 2 (\<lambda>_. replicate 4 0)"

definition one_pinned :: BufferPoolManager where
  "one_pinned = state_or pool0 (NewPage pool0)"

definition twice_pinned :: BufferPoolManager where
  "twice_pinned = state_or one_pinned (FetchPage one_pinned 0)"

definition marked_dirty :: BufferPoolManager where
  "marked_dirty = state_or twice_pinned (UnpinPage twice_pinned 0 True)"

definition unpinned :: BufferPoolManager where
  "unpinned = state_or one_pinned (UnpinPage one_pinned 0 False)"

text \<open>
  The pool of one frame after the client has written into page 0 and unpinned it dirty:
  once with a buffer that starts with a zero byte, once with one that does not.
\<close>

definition dirty_zero_first :: BufferPoolManager where
  "dirty_zero_first =
     (let b = write_buffer one_pinned 0 [0, 1, 2, 3] in state_or b (UnpinPage b 0 True))"

definition dirty_nonzero_first :: BufferPoolManager where
  "dirty_nonzero_first =
     (let b = write_buffer one_pinned 0 [1, 2, 3, 4] in state_or b (UnpinPage b 0 True))"

text \<open>
  The states the pool gets into. The keys of the replacer's store are distinct; a node
  carries its key, its key passes the replacer's range check, and a node that is not
  evictable belongs to a pinned frame; the frames of the page table and of the free list
  pass the range check; no pin count is negative. \<open>BufferPoolManager_new\<close> starts there
  and every operation of the pool that returns stays there (lemmas \<open>pool_inv_*\<close>).
\<close>

definition pool_inv :: "BufferPoolManager \<Rightarrow> bool" where
  "pool_inv b \<longleftrightarrow>
     distinct (map fst (node_store (replacer b))) \<and>
     (\<forall>f n. map_of (node_store (replacer b)) f = Some n \<longrightarrow>
        fid n = f \<and> \<not> out_of_range (replacer b) f \<and>
        (\<not> is_evictable n \<longrightarrow> 0 < pin_count (pages b f))) \<and>
     (\<forall>p f. page_table b p = Some f \<longrightarrow> \<not> out_of_range (replacer b) f) \<and>
     (\<forall>f \<in> set (free_list b). \<not> out_of_range (replacer b) f) \<and>
     (\<forall>f. 0 \<le> pin_count (pages b f))"

subsection \<open>The guards\<close>

text \<open>
  A world over the pool with page 0 pinned once and no guard, and a guard that holds
  frame 0.
\<close>

definition world0 :: world where
  "world0 = \<lparr>pool = one_pinned, calls = [], guards = (\<lambda>_. None)\<rparr>"

definition holding0 :: BasicPageGuard where
  "holding0 = BasicPageGuard_new (Ptr ()) (Ptr 0)"

text \<open>
  The runs of operations on guards that a program can make: an operation uses objects that
  are alive, the move constructor makes an object where none is, the destructor ends one.
\<close>

fun run_ok :: "nat set \<Rightarrow> guard_op list \<Rightarrow> bool" where
  "run_ok alive [] = True"
| "run_ok alive (MoveConstruct this that # xs) =
     (this \<notin> alive \<and> that \<in> alive \<and> run_ok (insert this alive) xs)"
| "run_ok alive (MoveAssign this that # xs) =
     (this \<in> alive \<and> that \<in> alive \<and> run_ok alive xs)"
| "run_ok alive (Drop this # xs) = (this \<in> alive \<and> run_ok alive xs)"
| "run_ok alive (Destroy this # xs) = (this \<in> alive \<and> run_ok (alive - {this}) xs)"

text \<open>
  A world over the pool with page 0 pinned twice, with a guard for each pin at the
  addresses 0 and 1; and a run that moves the first guard's frame into a new guard, moves
  that into the second guard, which has to drop its own frame first, and destroys all of
  them.
\<close>

definition two_holders :: world where
  "two_holders =
     \<lparr>pool = twice_pinned, calls = [], guards = (\<lambda>_. None)(0 \<mapsto> holding0, 1 \<mapsto> holding0)\<rparr>"

definition handover :: "guard_op list" where
  "handover = [MoveConstruct 2 0, Destroy 0, MoveAssign 1 2, MoveAssign 1 1, Drop 2, Drop 2,
                Destroy 2, Destroy 1]"

text \<open>
  What a page is owed: the guards that hold it and the \<open>UnpinPage\<close> calls made for it,
  counted together.
\<close>

definition owed :: "world \<Rightarrow> page_id_t \<Rightarrow> nat" where
  "owed w pid = card (holders w pid) + unpin_calls w pid"

text \<open>
  A world whose pool is in such a state and whose guards, when they hold a frame, point to
  the pool: the guards that \<open>BasicPageGuard_new\<close> and the moves make.
\<close>

definition guards_wf :: "world \<Rightarrow> bool" where
  "guards_wf w \<longleftrightarrow> pool_inv (pool w) \<and>
     (\<forall>a g. guards w a = Some g \<longrightarrow> page g = nullptr \<or> bpm g \<noteq> nullptr)"

subsection \<open>The worker\<close>

text \<open>
  The requests the worker will take from the queue: those before the first
  \<open>std::nullopt\<close>. \<open>unset\<close>: none of their promises has a value yet.
\<close>

fun pending :: "DiskRequest option list \<Rightarrow> DiskRequest list" where
  "pending [] = []"
| "pending (None # queue) = []"
| "pending (Some request # queue) = request # pending queue"

definition unset :: "DiskRequest option list \<Rightarrow> bool" where
  "unset queue \<longleftrightarrow> (\<forall>request \<in> set (pending queue). callback request = None)"

text \<open>
  \<open>always_returns\<close>: no call of the disk manager throws. A disk manager whose every call
  returns having failed, one whose every call throws, two requests with fresh promises and
  one whose promise has a value.
\<close>

definition always_returns :: "'d DiskManager \<Rightarrow> bool" where
  "always_returns dm \<longleftrightarrow>
     (\<forall>d pid buf. WritePage dm d pid buf \<noteq> Throws \<and> ReadPage dm d pid buf \<noteq> Throws)"

definition failing_disk :: "unit DiskManager" where
  "failing_disk =
     \<lparr>WritePage = (\<lambda>d pid buf. Returns d buf False),
      ReadPage = (\<lambda>d pid buf. Returns d buf False)\<rparr>"

definition throwing_disk :: "unit DiskManager" where
  "throwing_disk = \<lparr>WritePage = (\<lambda>d pid buf. Throws), ReadPage = (\<lambda>d pid buf. Throws)\<rparr>"

definition write3 :: DiskRequest where
  "write3 = \<lparr>is_write = True, req_data = [1, 2], req_page_id = 3, callback = None\<rparr>"

definition read4 :: DiskRequest where
  "read4 = \<lparr>is_write = False, req_data = [0, 0], req_page_id = 4, callback = None\<rparr>"

definition satisfied5 :: DiskRequest where
  "satisfied5 = \<lparr>is_write = True, req_data = [7, 7], req_page_id = 5, callback = Some True\<rparr>"

section \<open>Properties of the replacer\<close>

lemmas replacer_defs = Evict_def evict_step_def distance_of_def front_before_victim_def front_def
  RecordAccess_def SetEvictable_def Remove_def Size_def out_of_range_def default_node_def
  LRUKReplacer_new_def INVALID_FRAME_ID_def inf_distance_def

subsection \<open>The states of the replacer\<close>

lemma wf_new: "wf_replacer (LRUKReplacer_new num_frames k)"
  by (simp add: wf_replacer_def LRUKReplacer_new_def)

lemma trim_history_subset: "set (trim_history k h) \<subseteq> set h"
  by (induction h) auto

lemma trim_history_nonempty: "0 < k \<Longrightarrow> h \<noteq> [] \<Longrightarrow> trim_history k h \<noteq> []"
proof (induction h)
  case Nil
  then show ?case by simp
next
  case (Cons t ts)
  from Cons.prems(1) have "0 < unat k" by (simp add: word_less_nat_alt)
  with Cons show ?case by (cases ts) auto
qed

lemma update_mem: "e \<in> set (AList.update k v al) \<Longrightarrow> e = (k, v) \<or> e \<in> set al"
  by (induction al) (auto split: if_splits)

lemma delete_mem: "e \<in> set (AList.delete k al) \<Longrightarrow> e \<in> set al"
  by (simp add: AList.delete_eq)

lemma wf_RecordAccess:
  assumes wf: "wf_replacer r" and k: "0 < replacer_k r"
    and no_wrap: "current_timestamp r + 1 \<noteq> 0"
    and ra: "RecordAccess r frame_id = Inr r'"
  shows "wf_replacer r'"
proof -
  let ?ts = "current_timestamp r + 1"
  let ?node = "case map_of (node_store r) frame_id of None \<Rightarrow> default_node | Some n \<Rightarrow> n"
  let ?node' = "?node\<lparr>fid := frame_id, history := trim_history (replacer_k r) (history ?node @ [?ts])\<rparr>"
  from ra have range: "\<not> out_of_range r frame_id"
    and r': "r' = r\<lparr>current_timestamp := ?ts, node_store := AList.update frame_id ?node' (node_store r)\<rparr>"
    by (auto simp: RecordAccess_def Let_def split: if_splits)
  have le: "current_timestamp r \<le> ?ts"
    using no_wrap by (metis add_neg_numeral_special(8) inc_less_eq_self_iff_eq nle_le)
  have pos: "0 < ?ts"
    using no_wrap by (simp add: word_greater_zero_iff)
  have old: "\<forall>t \<in> set (history ?node). 0 < t \<and> t \<le> current_timestamp r"
  proof (cases "map_of (node_store r) frame_id")
    case None
    then show ?thesis by (simp add: default_node_def)
  next
    case (Some n)
    then have "(frame_id, n) \<in> set (node_store r)" by (rule map_of_SomeD)
    with wf Some show ?thesis by (fastforce simp: wf_replacer_def)
  qed
  have new: "\<forall>t \<in> set (history ?node'). 0 < t \<and> t \<le> ?ts"
  proof
    fix t assume "t \<in> set (history ?node')"
    then have "t \<in> set (history ?node @ [?ts])"
      using trim_history_subset by fastforce
    with old le pos show "0 < t \<and> t \<le> ?ts" by auto
  qed
  have ne: "history ?node' \<noteq> []"
    using trim_history_nonempty [OF k] by simp
  have "distinct (map fst (node_store r'))"
    using wf by (simp add: r' wf_replacer_def distinct_update)
  moreover have "fid (snd e) = fst e \<and> 0 \<le> fst e \<and> history (snd e) \<noteq> [] \<and>
        (\<forall>t \<in> set (history (snd e)). 0 < t \<and> t \<le> current_timestamp r')"
    if "e \<in> set (node_store r')" for e
  proof -
    from that have "e = (frame_id, ?node') \<or> e \<in> set (node_store r)"
      by (auto simp: r' dest: update_mem)
    then show ?thesis
    proof
      assume "e = (frame_id, ?node')"
      with range new ne show ?thesis by (simp add: r' out_of_range_def)
    next
      assume "e \<in> set (node_store r)"
      with wf le show ?thesis by (fastforce simp: r' wf_replacer_def)
    qed
  qed
  ultimately show ?thesis by (simp add: wf_replacer_def)
qed

lemma wf_SetEvictable:
  assumes wf: "wf_replacer r" and se: "SetEvictable r frame_id flag = Inr r'"
  shows "wf_replacer r'"
proof (cases "map_of (node_store r) frame_id")
  case None
  with se have "r' = r" by (auto simp: SetEvictable_def split: if_splits)
  with wf show ?thesis by simp
next
  case (Some n)
  then have n: "(frame_id, n) \<in> set (node_store r)" by (rule map_of_SomeD)
  show ?thesis
  proof (cases "is_evictable n \<noteq> flag")
    case False
    with se Some have "r' = r" by (auto simp: SetEvictable_def split: if_splits)
    with wf show ?thesis by simp
  next
    case True
    with se Some have r': "node_store r' = AList.update frame_id (n\<lparr>is_evictable := flag\<rparr>) (node_store r)"
      "current_timestamp r' = current_timestamp r"
      by (auto simp: SetEvictable_def split: if_splits)
    have "distinct (map fst (node_store r'))"
      using wf by (simp add: r' wf_replacer_def distinct_update)
    moreover have "fid (snd e) = fst e \<and> 0 \<le> fst e \<and> history (snd e) \<noteq> [] \<and>
        (\<forall>t \<in> set (history (snd e)). 0 < t \<and> t \<le> current_timestamp r')"
      if "e \<in> set (node_store r')" for e
    proof -
      from that have "e = (frame_id, n\<lparr>is_evictable := flag\<rparr>) \<or> e \<in> set (node_store r)"
        by (auto simp: r' dest: update_mem)
      with wf n show ?thesis by (fastforce simp: r' wf_replacer_def)
    qed
    ultimately show ?thesis by (simp add: wf_replacer_def)
  qed
qed

lemma wf_delete:
  assumes "wf_replacer r"
    and "node_store r' = AList.delete f (node_store r)"
    and "current_timestamp r' = current_timestamp r"
  shows "wf_replacer r'"
  using assms by (auto simp: wf_replacer_def distinct_delete dest!: delete_mem)

lemma wf_Remove:
  assumes wf: "wf_replacer r" and rm: "Remove r frame_id = Inr r'"
  shows "wf_replacer r'"
proof (cases "map_of (node_store r) frame_id")
  case None
  with rm have "r' = r" by (auto simp: Remove_def split: if_splits)
  with wf show ?thesis by simp
next
  case (Some n)
  with rm have "node_store r' = AList.delete frame_id (node_store r)"
    "current_timestamp r' = current_timestamp r"
    by (auto simp: Remove_def split: if_splits)
  with wf show ?thesis by (rule wf_delete)
qed

lemma wf_Evict:
  assumes wf: "wf_replacer r" and ev: "Evict r = Inr (r', res)"
  shows "wf_replacer r'"
proof -
  from ev have "r' = r \<or> (\<exists>f. node_store r' = AList.delete f (node_store r) \<and>
      current_timestamp r' = current_timestamp r)"
    by (auto simp: Evict_def split: sum.splits if_splits)
  with wf show ?thesis by (auto intro: wf_delete)
qed

text \<open>The state of scenario 4 is the one the operations produce.\<close>

lemma three_once_reached:
  "and_then (and_then (and_then (and_then (and_then (RecordAccess (LRUKReplacer_new 7 2) 0)
      (\<lambda>r. RecordAccess r 1)) (\<lambda>r. RecordAccess r 2)) (\<lambda>r. SetEvictable r 0 True))
      (\<lambda>r. SetEvictable r 1 True)) (\<lambda>r. SetEvictable r 2 True) = Inr three_once"
  by (simp add: and_then_def RecordAccess_def SetEvictable_def LRUKReplacer_new_def
      out_of_range_def default_node_def three_once_def)

subsection \<open>The victim of Evict\<close>

lemma wf_entry:
  assumes "wf_replacer r" "e \<in> set (node_store r)"
  shows "fid (snd e) = fst e" "0 \<le> fst e" "history (snd e) \<noteq> []"
    "0 < oldest (snd e)" "oldest (snd e) \<le> current_timestamp r"
    "map_of (node_store r) (fst e) = Some (snd e)"
proof -
  from assms show a: "fid (snd e) = fst e" "0 \<le> fst e" "history (snd e) \<noteq> []"
    by (auto simp: wf_replacer_def)
  then obtain t ts where h: "history (snd e) = t # ts" by (cases "history (snd e)") auto
  with assms have "0 < t \<and> t \<le> current_timestamp r"
    by (auto simp: wf_replacer_def)
  with h show "0 < oldest (snd e)" "oldest (snd e) \<le> current_timestamp r"
    by (simp_all add: oldest_def)
  from assms have "distinct (map fst (node_store r))" by (simp add: wf_replacer_def)
  with assms(2) show "map_of (node_store r) (fst e) = Some (snd e)"
    by (metis map_of_is_SomeI prod.collapse)
qed

lemma front_oldest: "history n \<noteq> [] \<Longrightarrow> front (history n) = Inr (oldest n)"
  by (cases "history n") (simp_all add: front_def oldest_def)

lemma distance_of_wdist:
  "history n \<noteq> [] \<Longrightarrow> distance_of r n = Inr (wdist r n)"
  by (simp add: distance_of_def wdist_def front_oldest)

lemma finite_distance:
  fixes c t :: size_t
  assumes "0 < t" "t \<le> c"
  shows "unat (c - t) = unat c - unat t" "c - t < inf_distance"
proof -
  show u: "unat (c - t) = unat c - unat t"
    using assms by (simp add: unat_sub)
  have "unat t > 0" using assms(1) by (simp add: word_less_nat_alt)
  moreover have "unat c < (2::nat) ^ 64" using unsigned_less [of c] by simp
  moreover have "unat t \<le> unat c" using assms(2) by (simp add: word_le_nat_alt)
  ultimately have "unat c - unat t < (2::nat) ^ 64 - 1" by arith
  moreover have "unat inf_distance = (2::nat) ^ 64 - 1" by (simp add: inf_distance_def unsigned_minus_1_eq_mask mask_eq_exp_minus_1)
  ultimately show "c - t < inf_distance" using u by (simp add: word_less_nat_alt)
qed

lemma beats_refl: "beats r n n"
  by (simp add: beats_def)

lemma beats_trans: "beats r a b \<Longrightarrow> beats r b c \<Longrightarrow> beats r a c"
  by (auto simp: beats_def)

lemma evict_step_inv:
  assumes wf: "wf_replacer r"
    and e: "e \<in> set (node_store r)"
    and sub: "set seen \<subseteq> set (node_store r)"
    and inv: "scan_inv r seen acc"
  shows "\<exists>acc'. evict_step r e acc = Inr acc' \<and> scan_inv r (seen @ [e]) acc'"
proof (cases "is_evictable (snd e)")
  case False
  then have "evict_step r e acc = Inr acc"
    by (simp add: evict_step_def Let_def)
  moreover from False inv have "scan_inv r (seen @ [e]) acc"
    by (auto simp: scan_inv_def)
  ultimately show ?thesis by simp
next
  case ev: True
  note we = wf_entry [OF wf e]
  have d: "distance_of r (snd e) = Inr (wdist r (snd e))"
    using we(3) by (rule distance_of_wdist)
  have nonneg: "fid (snd e) \<noteq> INVALID_FRAME_ID"
    using we(1,2) by (simp add: INVALID_FRAME_ID_def)
  have mem: "(fid (snd e), snd e) \<in> set (seen @ [e])"
    using we(1) by (cases e) simp
  show ?thesis
  proof (cases "fst acc = INVALID_FRAME_ID")
    case True
    then have "evict_step r e acc = Inr (fid (snd e), wdist r (snd e))"
      using ev d by (simp add: evict_step_def Let_def)
    moreover have "scan_inv r (seen @ [e]) (fid (snd e), wdist r (snd e))"
      using True inv nonneg mem ev
      by (auto simp: scan_inv_def beats_refl intro!: exI [of _ "snd e"])
    ultimately show ?thesis by simp
  next
    case False
    with inv obtain v where v: "(fst acc, v) \<in> set seen" "is_evictable v"
      "wdist r v = snd acc" "\<forall>x \<in> set seen. is_evictable (snd x) \<longrightarrow> beats r v (snd x)"
      by (auto simp: scan_inv_def)
    from v(1) sub have vin: "(fst acc, v) \<in> set (node_store r)" by auto
    note wv = wf_entry [OF wf vin]
    have fb: "front_before_victim r (snd e) (fst acc) = Inr (oldest (snd e) < oldest v)"
      using we(3) wv(3,6) by (simp add: front_before_victim_def front_oldest)
    let ?new = "(fid (snd e), wdist r (snd e))"
    have new_inv: "scan_inv r (seen @ [e]) ?new" if "beats r (snd e) v"
    proof -
      have "\<forall>x \<in> set (seen @ [e]). is_evictable (snd x) \<longrightarrow> beats r (snd e) (snd x)"
        using v(4) that by (auto intro: beats_trans beats_refl)
      with nonneg mem ev show ?thesis
        by (auto simp: scan_inv_def intro!: exI [of _ "snd e"])
    qed
    have old_inv: "scan_inv r (seen @ [e]) acc" if "beats r v (snd e)"
      using False v that by (auto simp: scan_inv_def intro!: exI [of _ v])
    consider (lt) "snd acc < wdist r (snd e)"
      | (eq_lt) "snd acc = wdist r (snd e)" "oldest (snd e) < oldest v"
      | (eq_ge) "snd acc = wdist r (snd e)" "\<not> oldest (snd e) < oldest v"
      | (gt) "wdist r (snd e) < snd acc"
      by (meson linorder_neqE)
    then show ?thesis
    proof cases
      case lt
      then have "evict_step r e acc = Inr ?new"
        using ev d by (simp add: evict_step_def Let_def)
      moreover have "beats r (snd e) v" using lt v(3) by (simp add: beats_def)
      ultimately show ?thesis using new_inv by simp
    next
      case eq_lt
      then have "evict_step r e acc = Inr ?new"
        using ev d fb False by (simp add: evict_step_def Let_def)
      moreover have "beats r (snd e) v" using eq_lt v(3) by (simp add: beats_def)
      ultimately show ?thesis using new_inv by simp
    next
      case eq_ge
      then have "evict_step r e acc = Inr acc"
        using ev d fb False by (simp add: evict_step_def Let_def)
      moreover have "beats r v (snd e)" using eq_ge v(3) by (simp add: beats_def)
      ultimately show ?thesis using old_inv by simp
    next
      case gt
      then have "evict_step r e acc = Inr acc"
        using ev d fb False by (auto simp: evict_step_def Let_def)
      moreover have "beats r v (snd e)" using gt v(3) by (simp add: beats_def)
      ultimately show ?thesis using old_inv by simp
    qed
  qed
qed

lemma evict_scan_inv:
  assumes wf: "wf_replacer r"
  shows "set seen \<subseteq> set (node_store r) \<Longrightarrow> set rest \<subseteq> set (node_store r) \<Longrightarrow>
         scan_inv r seen acc \<Longrightarrow>
         \<exists>acc'. evict_scan r rest acc = Inr acc' \<and> scan_inv r (seen @ rest) acc'"
proof (induction rest arbitrary: seen acc)
  case Nil
  then show ?case by simp
next
  case (Cons e rest)
  from Cons.prems have e: "e \<in> set (node_store r)" by simp
  from evict_step_inv [OF wf e Cons.prems(1) Cons.prems(3)]
  obtain acc1 where s: "evict_step r e acc = Inr acc1" "scan_inv r (seen @ [e]) acc1"
    by blast
  have "\<exists>acc'. evict_scan r rest acc1 = Inr acc' \<and> scan_inv r ((seen @ [e]) @ rest) acc'"
    using Cons.prems e s(2) by (intro Cons.IH) auto
  with s(1) show ?case by simp
qed

lemma wdist_less_iff:
  assumes "0 < oldest n" "oldest n \<le> current_timestamp r"
    and "0 < oldest v" "oldest v \<le> current_timestamp r"
  shows "wdist r n < wdist r v \<longleftrightarrow> backward_k_distance r n < backward_k_distance r v"
  using finite_distance [OF assms(1,2)] finite_distance [OF assms(3,4)]
  by (auto simp: wdist_def backward_k_distance_def word_less_nat_alt)

lemma wdist_eq_iff:
  assumes "0 < oldest n" "oldest n \<le> current_timestamp r"
    and "0 < oldest v" "oldest v \<le> current_timestamp r"
  shows "wdist r n = wdist r v \<longleftrightarrow> backward_k_distance r n = backward_k_distance r v"
proof -
  note fn = finite_distance [OF assms(1,2)] and fv = finite_distance [OF assms(3,4)]
  have long: "current_timestamp r - oldest n = current_timestamp r - oldest v \<longleftrightarrow>
        unat (current_timestamp r) - unat (oldest n) = unat (current_timestamp r) - unat (oldest v)"
    using fn(1) fv(1) by (metis word_unat_eq_iff)
  have "current_timestamp r - oldest n \<noteq> inf_distance"
    "current_timestamp r - oldest v \<noteq> inf_distance"
    using fn(2) fv(2) by auto
  with long show ?thesis
    by (simp add: wdist_def backward_k_distance_def)
qed

lemma beats_distance:
  assumes "wf_replacer r" "(f, v) \<in> set (node_store r)" "e \<in> set (node_store r)"
    and "beats r v (snd e)"
  shows "backward_k_distance r (snd e) \<le> backward_k_distance r v"
    and "backward_k_distance r (snd e) = backward_k_distance r v \<Longrightarrow> oldest v \<le> oldest (snd e)"
proof -
  note wv = wf_entry [OF assms(1,2)] and we = wf_entry [OF assms(1,3)]
  have lt: "wdist r (snd e) < wdist r v \<longleftrightarrow>
            backward_k_distance r (snd e) < backward_k_distance r v"
    using wdist_less_iff [OF we(4,5), of v] wv(4,5) by simp
  have eq: "wdist r (snd e) = wdist r v \<longleftrightarrow>
            backward_k_distance r (snd e) = backward_k_distance r v"
    using wdist_eq_iff [OF we(4,5), of v] wv(4,5) by simp
  from assms(4) lt eq show "backward_k_distance r (snd e) \<le> backward_k_distance r v"
    by (auto simp: beats_def)
  assume "backward_k_distance r (snd e) = backward_k_distance r v"
  with assms(4) lt eq show "oldest v \<le> oldest (snd e)"
    by (auto simp: beats_def)
qed

text \<open>
  Claim C1. In every state of the replacer as described by \<open>wf_replacer\<close>, \<open>Evict\<close>
  returns; it returns false and changes nothing when no node is evictable, and otherwise it
  returns the key of an evictable node whose backward K-distance (the current timestamp
  minus the front of the history when the history has K entries, infinity otherwise) is the
  greatest among the evictable nodes, and whose history has the earliest front among the
  evictable nodes of the same distance, those of infinite distance in particular; the node
  of that key is erased from the store. This holds for every order in which the store is
  iterated.
\<close>

theorem Evict_greatest_backward_k_distance:
  assumes "wf_replacer r"
  shows "\<exists>r' res. Evict r = Inr (r', res) \<and>
     (case res of
        None \<Rightarrow> r' = r \<and> (\<forall>e \<in> set (node_store r). \<not> is_evictable (snd e))
      | Some victim \<Rightarrow>
          (\<exists>v. (victim, v) \<in> set (node_store r) \<and> is_evictable v \<and>
             (\<forall>e \<in> set (node_store r). is_evictable (snd e) \<longrightarrow>
                backward_k_distance r (snd e) \<le> backward_k_distance r v \<and>
                (backward_k_distance r (snd e) = backward_k_distance r v \<longrightarrow>
                   oldest v \<le> oldest (snd e)))) \<and>
          node_store r' = AList.delete victim (node_store r) \<and>
          map_of (node_store r') victim = None)"
proof -
  have "scan_inv r [] (INVALID_FRAME_ID, 0)"
    by (simp add: scan_inv_def)
  from evict_scan_inv [OF assms _ _ this, of "node_store r"]
  obtain acc where acc: "evict_scan r (node_store r) (INVALID_FRAME_ID, 0) = Inr acc"
    "scan_inv r (node_store r) acc"
    by auto
  show ?thesis
  proof (cases "fst acc = INVALID_FRAME_ID")
    case True
    with acc show ?thesis
      by (simp add: Evict_def scan_inv_def)
  next
    case False
    with acc(2) obtain v where v: "(fst acc, v) \<in> set (node_store r)" "is_evictable v"
      "\<forall>e \<in> set (node_store r). is_evictable (snd e) \<longrightarrow> beats r v (snd e)"
      by (auto simp: scan_inv_def)
    have "\<forall>e \<in> set (node_store r). is_evictable (snd e) \<longrightarrow>
            backward_k_distance r (snd e) \<le> backward_k_distance r v \<and>
            (backward_k_distance r (snd e) = backward_k_distance r v \<longrightarrow>
               oldest v \<le> oldest (snd e))"
      using beats_distance [OF assms v(1)] v(3) by blast
    with v(1,2) False acc(1) show ?thesis
      by (auto simp: Evict_def delete_conv)
  qed
qed

text \<open>Scenario 4 of the spec: the three nodes have infinite distance, and frame 0 goes.\<close>

theorem Evict_greatest_backward_k_distance_witness:
  "wf_replacer three_once \<and>
   (\<exists>r'. Evict three_once = Inr (r', Some 0) \<and> map_of (node_store r') 0 = None)"
proof -
  have wf: "wf_replacer three_once"
    by (simp add: wf_replacer_def three_once_def)
  have "Evict three_once =
          Inr (three_once\<lparr>node_store := AList.delete 0 (node_store three_once),
                          curr_size := curr_size three_once - 1\<rparr>, Some 0)"
    by (simp add: Evict_def evict_step_def distance_of_def front_before_victim_def front_def
        three_once_def INVALID_FRAME_ID_def inf_distance_def Let_def)
  with wf Evict_greatest_backward_k_distance [OF wf] show ?thesis
    by auto
qed

subsection \<open>The range check\<close>

text \<open>
  For frame ids and a size within the 32-bit range, the check rejects the negative ids and
  those greater than the size: the id equal to the size passes.
\<close>

lemma out_of_range_iff:
  assumes "replacer_size r = word_of_int n" "0 \<le> n" "n < 2 ^ 31" "- (2 ^ 31) \<le> frame_id" "frame_id < 2 ^ 31"
  shows "out_of_range r frame_id \<longleftrightarrow> frame_id < 0 \<or> n < frame_id"
proof (cases "frame_id < 0")
  case True
  then show ?thesis by (simp add: out_of_range_def)
next
  case False
  have "(word_of_int n :: size_t) < word_of_int frame_id \<longleftrightarrow> n < frame_id"
    using assms False by (simp add: word_less_def uint_word_of_int take_bit_int_eq_self)
  with False show ?thesis using assms(1) by (simp add: out_of_range_def)
qed

text \<open>
  Claim C4 says that \<open>RecordAccess\<close>, \<open>SetEvictable\<close> and \<open>Remove\<close> fail with
  \<open>OUT_OF_RANGE\<close> for every frame id that is negative or at least \<open>num_frames\<close>. With
  seven frames the three operations accept the frame id 7: \<open>RecordAccess\<close> makes a node
  for it, the other two return. The ids 8 and -1 are rejected.
\<close>

theorem range_check_accepts_num_frames:
  "RecordAccess (LRUKReplacer_new 7 2) 7 =
     Inr \<lparr>node_store = [(7, \<lparr>history = [1], fid = 7, is_evictable = False\<rparr>)],
          current_timestamp = 1, curr_size = 0, replacer_size = 7, replacer_k = 2\<rparr> \<and>
   SetEvictable (LRUKReplacer_new 7 2) 7 True = Inr (LRUKReplacer_new 7 2) \<and>
   Remove (LRUKReplacer_new 7 2) 7 = Inr (LRUKReplacer_new 7 2) \<and>
   RecordAccess (LRUKReplacer_new 7 2) 8 = Inl OUT_OF_RANGE \<and>
   RecordAccess (LRUKReplacer_new 7 2) (- 1) = Inl OUT_OF_RANGE"
  by (simp add: replacer_defs)

subsection \<open>What the operations do to the store\<close>

lemma out_of_range_cong:
  "replacer_size r' = replacer_size r \<Longrightarrow> out_of_range r' f = out_of_range r f"
  by (simp add: out_of_range_def)

lemma SetEvictable_spec:
  assumes "SetEvictable r f flag = Inr r'"
  shows "\<not> out_of_range r f" "replacer_size r' = replacer_size r"
    "distinct (map fst (node_store r)) \<Longrightarrow> distinct (map fst (node_store r'))"
    "map_of (node_store r') =
       (case map_of (node_store r) f of
          None \<Rightarrow> map_of (node_store r)
        | Some n \<Rightarrow> (map_of (node_store r))(f \<mapsto> n\<lparr>is_evictable := flag\<rparr>))"
proof -
  from assms show "\<not> out_of_range r f"
    by (auto simp: SetEvictable_def split: if_splits)
  from assms show "replacer_size r' = replacer_size r"
    by (auto simp: SetEvictable_def split: if_splits option.splits)
  from assms show "distinct (map fst (node_store r)) \<Longrightarrow> distinct (map fst (node_store r'))"
    by (auto simp: SetEvictable_def distinct_update split: if_splits option.splits)
  show "map_of (node_store r') =
       (case map_of (node_store r) f of
          None \<Rightarrow> map_of (node_store r)
        | Some n \<Rightarrow> (map_of (node_store r))(f \<mapsto> n\<lparr>is_evictable := flag\<rparr>))"
  proof (cases "map_of (node_store r) f")
    case None
    with assms show ?thesis by (auto simp: SetEvictable_def split: if_splits)
  next
    case (Some n)
    show ?thesis
    proof (cases "is_evictable n = flag")
      case True
      then have "n\<lparr>is_evictable := flag\<rparr> = n" by auto
      moreover from True Some assms have "r' = r"
        by (auto simp: SetEvictable_def split: if_splits)
      ultimately show ?thesis using Some by (simp add: map_upd_triv)
    next
      case False
      with Some assms show ?thesis
        by (auto simp: SetEvictable_def update_conv' split: if_splits)
    qed
  qed
qed

lemma RecordAccess_spec:
  assumes "RecordAccess r f = Inr r'"
  shows "\<not> out_of_range r f" "replacer_size r' = replacer_size r"
    "distinct (map fst (node_store r)) \<Longrightarrow> distinct (map fst (node_store r'))"
    "\<exists>n'. map_of (node_store r') = (map_of (node_store r))(f \<mapsto> n') \<and> fid n' = f \<and>
        is_evictable n' =
          (case map_of (node_store r) f of None \<Rightarrow> False | Some n \<Rightarrow> is_evictable n)"
proof -
  from assms show "\<not> out_of_range r f"
    by (auto simp: RecordAccess_def split: if_splits)
  from assms show "replacer_size r' = replacer_size r"
    by (auto simp: RecordAccess_def Let_def split: if_splits)
  from assms show "distinct (map fst (node_store r)) \<Longrightarrow> distinct (map fst (node_store r'))"
    by (auto simp: RecordAccess_def Let_def distinct_update split: if_splits)
  from assms show "\<exists>n'. map_of (node_store r') = (map_of (node_store r))(f \<mapsto> n') \<and> fid n' = f \<and>
        is_evictable n' =
          (case map_of (node_store r) f of None \<Rightarrow> False | Some n \<Rightarrow> is_evictable n)"
    by (auto simp: RecordAccess_def Let_def update_conv' default_node_def
        split: if_splits option.splits)
qed

lemma Remove_spec:
  assumes "Remove r f = Inr r'"
  shows "replacer_size r' = replacer_size r"
    "distinct (map fst (node_store r)) \<Longrightarrow> distinct (map fst (node_store r'))"
    "map_of (node_store r') = (map_of (node_store r))(f := None)"
proof -
  from assms show "replacer_size r' = replacer_size r"
    by (auto simp: Remove_def split: if_splits option.splits)
  from assms show "distinct (map fst (node_store r)) \<Longrightarrow> distinct (map fst (node_store r'))"
    by (auto simp: Remove_def distinct_delete split: if_splits option.splits)
  from assms show "map_of (node_store r') = (map_of (node_store r))(f := None)"
    by (auto simp: Remove_def delete_conv' split: if_splits option.splits)
qed

lemma evict_step_victim:
  "evict_step r e acc = Inr acc' \<Longrightarrow> fst acc' = fst acc \<or> fst acc' = fid (snd e)"
  by (auto simp: evict_step_def Let_def split: if_splits sum.splits bool.splits)

lemma evict_scan_victim:
  "evict_scan r xs acc = Inr acc' \<Longrightarrow>
   fst acc' = fst acc \<or> (\<exists>e \<in> set xs. fst acc' = fid (snd e))"
proof (induction xs arbitrary: acc)
  case Nil
  then show ?case by simp
next
  case (Cons e xs)
  from Cons.prems obtain acc1 where s: "evict_step r e acc = Inr acc1"
    "evict_scan r xs acc1 = Inr acc'"
    by (auto split: sum.splits)
  from evict_step_victim [OF s(1)] Cons.IH [OF s(2)] show ?case by auto
qed

lemma Evict_spec:
  assumes "Evict r = Inr (r', res)"
  shows "replacer_size r' = replacer_size r"
    "distinct (map fst (node_store r)) \<Longrightarrow> distinct (map fst (node_store r'))"
    "res = None \<Longrightarrow> r' = r"
    "res = Some v \<Longrightarrow> map_of (node_store r') = (map_of (node_store r))(v := None) \<and>
        (\<exists>e \<in> set (node_store r). v = fid (snd e))"
proof -
  from assms show "replacer_size r' = replacer_size r"
    by (auto simp: Evict_def split: if_splits sum.splits)
  from assms show "distinct (map fst (node_store r)) \<Longrightarrow> distinct (map fst (node_store r'))"
    by (auto simp: Evict_def distinct_delete split: if_splits sum.splits)
  from assms show "res = None \<Longrightarrow> r' = r"
    by (auto simp: Evict_def split: if_splits sum.splits)
  assume "res = Some v"
  with assms obtain acc where a: "evict_scan r (node_store r) (INVALID_FRAME_ID, 0) = Inr acc"
    "fst acc \<noteq> INVALID_FRAME_ID" "v = fst acc"
    "node_store r' = AList.delete v (node_store r)"
    by (auto simp: Evict_def split: if_splits sum.splits)
  from evict_scan_victim [OF a(1)] a(2,3) have "\<exists>e \<in> set (node_store r). v = fid (snd e)"
    by auto
  with a(4) show "map_of (node_store r') = (map_of (node_store r))(v := None) \<and>
        (\<exists>e \<in> set (node_store r). v = fid (snd e))"
    by (simp add: delete_conv')
qed

lemma pin_and_record:
  assumes s: "SetEvictable r f False = Inr r1" and a: "RecordAccess r1 f = Inr r2"
  shows "\<not> out_of_range r f" "replacer_size r2 = replacer_size r"
    "distinct (map fst (node_store r)) \<Longrightarrow> distinct (map fst (node_store r2))"
    "\<exists>n'. map_of (node_store r2) = (map_of (node_store r))(f \<mapsto> n') \<and> fid n' = f \<and>
        \<not> is_evictable n'"
proof -
  note ss = SetEvictable_spec [OF s] and aa = RecordAccess_spec [OF a]
  show "\<not> out_of_range r f" by (rule ss(1))
  show "replacer_size r2 = replacer_size r" using ss(2) aa(2) by simp
  show "distinct (map fst (node_store r)) \<Longrightarrow> distinct (map fst (node_store r2))"
    using ss(3) aa(3) by blast
  from aa(4) obtain n' where n': "map_of (node_store r2) = (map_of (node_store r1))(f \<mapsto> n')"
    "fid n' = f"
    "is_evictable n' =
       (case map_of (node_store r1) f of None \<Rightarrow> False | Some n \<Rightarrow> is_evictable n)"
    by blast
  have "\<not> is_evictable n'"
    using n'(3) ss(4) by (auto split: option.splits)
  moreover have "map_of (node_store r2) = (map_of (node_store r))(f \<mapsto> n')"
    using n'(1) ss(4) by (auto split: option.splits)
  ultimately show "\<exists>n'. map_of (node_store r2) = (map_of (node_store r))(f \<mapsto> n') \<and>
      fid n' = f \<and> \<not> is_evictable n'"
    using n'(2) by blast
qed

lemma Evict_keeps:
  "Evict r = Inr (r', res) \<Longrightarrow>
     replacer_size r' = replacer_size r \<and> replacer_k r' = replacer_k r \<and>
     current_timestamp r' = current_timestamp r"
  by (auto simp: Evict_def split: sum.splits if_splits)

lemma SetEvictable_keeps:
  "SetEvictable r f flag = Inr r' \<Longrightarrow>
     replacer_size r' = replacer_size r \<and> replacer_k r' = replacer_k r \<and>
     current_timestamp r' = current_timestamp r"
  by (auto simp: SetEvictable_def split: if_splits option.splits)

lemma SetEvictable_returns:
  "\<not> out_of_range r f \<Longrightarrow> \<exists>r'. SetEvictable r f flag = Inr r'"
  by (auto simp: SetEvictable_def split: option.splits)

lemma RecordAccess_returns:
  "\<not> out_of_range r f \<Longrightarrow> \<exists>r'. RecordAccess r f = Inr r'"
  by (simp add: RecordAccess_def Let_def)

lemma Remove_ok:
  assumes "\<not> out_of_range r f" "\<forall>n. map_of (node_store r) f = Some n \<longrightarrow> is_evictable n"
  shows "\<exists>r'. Remove r f = Inr r' \<and> node_store r' = AList.delete f (node_store r) \<and>
           current_timestamp r' = current_timestamp r \<and> replacer_size r' = replacer_size r \<and>
           replacer_k r' = replacer_k r"
proof (cases "map_of (node_store r) f")
  case None
  then have "f \<notin> fst ` set (node_store r)" by (simp add: map_of_eq_None_iff)
  then have "AList.delete f (node_store r) = node_store r" by simp
  with None assms show ?thesis by (simp add: Remove_def)
next
  case (Some n)
  with assms show ?thesis by (simp add: Remove_def)
qed

lemma evict_scan_none:
  "\<forall>e \<in> set xs. \<not> is_evictable (snd e) \<Longrightarrow> evict_scan r xs acc = Inr acc"
  by (induction xs) (simp_all add: evict_step_def Let_def)

lemma Evict_none:
  "\<forall>e \<in> set (node_store r). \<not> is_evictable (snd e) \<Longrightarrow> Evict r = Inr (r, None)"
  by (simp add: Evict_def evict_scan_none)

section \<open>Properties of the pool\<close>

lemmas pool_defs = BufferPoolManager_new_def new_Page_def NewPage_def FetchPage_def UnpinPage_def
  FlushPage_def DeletePage_def RequestFrameId_def InitPageOnBufferPool_def AllocatePage_def
  DiskSchedule_def DeallocatePage_def ResetMemory_def strlen_positive_def INVALID_PAGE_ID_def
  state_or_def and_then_def write_buffer_def

lemma four_zeros: "replicate 4 (0 :: 8 word) = [0, 0, 0, 0]"
  by (simp add: eval_nat_numeral)

lemmas scenario_defs = four_zeros pool0_def one_pinned_def twice_pinned_def marked_dirty_def
  unpinned_def dirty_zero_first_def dirty_nonzero_first_def

subsection \<open>The states of the pool\<close>

lemma pool_inv_RequestFrameId:
  assumes inv: "pool_inv b" and req: "RequestFrameId b = Inr (b1, f)"
  shows "pool_inv b1" "f \<noteq> INVALID_FRAME_ID \<Longrightarrow> \<not> out_of_range (replacer b1) f"
proof -
  have "pool_inv b1 \<and> (f \<noteq> INVALID_FRAME_ID \<longrightarrow> \<not> out_of_range (replacer b1) f)"
  proof (cases "free_list b")
    case (Cons g rest)
    with req have "b1 = b\<lparr>free_list := rest\<rparr>" "f = g"
      by (simp_all add: RequestFrameId_def)
    with inv Cons show ?thesis by (simp add: pool_inv_def)
  next
    case Nil
    show ?thesis
    proof (cases "Size (replacer b) > 0")
      case False
      with req Nil have "b1 = b" "f = INVALID_FRAME_ID"
        by (simp_all add: RequestFrameId_def)
      with inv show ?thesis by simp
    next
      case True
      with req Nil obtain r' res where ev: "Evict (replacer b) = Inr (r', res)"
        and b1: "b1 = b\<lparr>replacer := r'\<rparr>"
        and f: "f = (case res of None \<Rightarrow> INVALID_FRAME_ID | Some victim \<Rightarrow> victim)"
        by (auto simp: RequestFrameId_def split: sum.splits)
      note e = Evict_spec [OF ev]
      show ?thesis
      proof (cases res)
        case None
        with e(3) b1 f inv show ?thesis by simp
      next
        case (Some v)
        from e(4) [OF Some] obtain x where x: "x \<in> set (node_store (replacer b))"
          "v = fid (snd x)"
          and m: "map_of (node_store r') = (map_of (node_store (replacer b)))(v := None)"
          by blast
        from inv have d: "distinct (map fst (node_store (replacer b)))"
          by (simp add: pool_inv_def)
        with x(1) have "map_of (node_store (replacer b)) (fst x) = Some (snd x)"
          by (metis map_of_is_SomeI prod.collapse)
        moreover from inv have "\<forall>g n. map_of (node_store (replacer b)) g = Some n \<longrightarrow>
            fid n = g \<and> \<not> out_of_range (replacer b) g"
          by (simp add: pool_inv_def)
        ultimately have "\<not> out_of_range (replacer b) v"
          using x(2) by metis
        moreover have rng: "\<And>g. out_of_range r' g = out_of_range (replacer b) g"
          using e(1) by (rule out_of_range_cong)
        moreover have "pool_inv b1"
          using inv e(2) [OF d] m rng
          by (auto simp: pool_inv_def b1 split: if_splits)
        ultimately show ?thesis using Some f b1 by simp
      qed
    qed
  qed
  then show "pool_inv b1" "f \<noteq> INVALID_FRAME_ID \<Longrightarrow> \<not> out_of_range (replacer b1) f"
    by simp_all
qed

lemma pool_inv_Init:
  assumes inv: "pool_inv b" and init: "InitPageOnBufferPool b pid f = Inr b'"
  shows "pool_inv b'"
proof -
  let ?p = "(pages b f)\<lparr>page_id := pid, is_dirty := False, pin_count := 1\<rparr>"
  from init obtain r1 r2 where s: "SetEvictable (replacer b) f False = Inr r1"
    and a: "RecordAccess r1 f = Inr r2"
    and b': "b' = b\<lparr>pages := (pages b)(f := ?p), replacer := r2,
                     page_table := (page_table b)(pid \<mapsto> f)\<rparr>"
    by (auto simp: InitPageOnBufferPool_def Let_def split: sum.splits)
  note pr = pin_and_record [OF s a]
  from inv have d: "distinct (map fst (node_store (replacer b)))"
    by (simp add: pool_inv_def)
  from pr(4) obtain n' where n': "map_of (node_store r2) = (map_of (node_store (replacer b)))(f \<mapsto> n')"
    "fid n' = f" "\<not> is_evictable n'"
    by blast
  have rng: "\<And>g. out_of_range r2 g = out_of_range (replacer b) g"
    using pr(2) by (rule out_of_range_cong)
  have 1: "distinct (map fst (node_store (replacer b')))"
    using pr(3) [OF d] by (simp add: b')
  have 2: "fid n = g \<and> \<not> out_of_range (replacer b') g \<and>
        (\<not> is_evictable n \<longrightarrow> 0 < pin_count (pages b' g))"
    if "map_of (node_store (replacer b')) g = Some n" for g n
  proof -
    from that have "(g = f \<and> n = n') \<or> (g \<noteq> f \<and> map_of (node_store (replacer b)) g = Some n)"
      by (auto simp: b' n'(1) split: if_splits)
    then show ?thesis
      using inv n'(2) pr(1) rng by (auto simp: pool_inv_def b')
  qed
  have 3: "\<not> out_of_range (replacer b') g" if "page_table b' p = Some g" for p g
    using that inv pr(1) rng by (auto simp: pool_inv_def b' split: if_splits)
  have 4: "\<not> out_of_range (replacer b') g" if "g \<in> set (free_list b')" for g
    using that inv rng by (auto simp: pool_inv_def b')
  have 5: "0 \<le> pin_count (pages b' g)" for g
    using inv by (auto simp: pool_inv_def b')
  from 1 2 3 4 5 show ?thesis
    unfolding pool_inv_def by blast
qed

text \<open>What the invariant looks at.\<close>

lemma pool_inv_same:
  assumes "pool_inv b" "replacer b' = replacer b" "free_list b' = free_list b"
    and "\<And>f. pin_count (pages b' f) = pin_count (pages b f)"
    and "\<And>p f. page_table b' p = Some f \<Longrightarrow> page_table b p = Some f"
  shows "pool_inv b'"
  using assms unfolding pool_inv_def by metis

lemma pool_inv_NewPage:
  assumes inv: "pool_inv b" and new: "NewPage b = Inr (b', res)"
  shows "pool_inv b'"
proof -
  from new obtain b1 f where req: "RequestFrameId b = Inr (b1, f)"
    by (auto simp: NewPage_def split: sum.splits)
  note r = pool_inv_RequestFrameId [OF inv req]
  show ?thesis
  proof (cases "f = INVALID_FRAME_ID")
    case True
    with new req have "b' = b1" by (simp add: NewPage_def)
    with r(1) show ?thesis by simp
  next
    case False
    let ?page = "pages b1 f"
    let ?b2 = "if is_dirty ?page \<and> strlen_positive (data ?page)
               then DiskSchedule b1 True f (page_id ?page) else b1"
    let ?b3 = "?b2\<lparr>page_table := (page_table ?b2)(page_id ?page := None)\<rparr>"
    let ?b4 = "?b3\<lparr>pages := (pages ?b3)(f := ResetMemory (pages ?b3 f))\<rparr>"
    from new req False obtain b5 where init: "InitPageOnBufferPool ?b4 (next_page_id ?b4) f = Inr b5"
      and b': "b' = fst (AllocatePage b5)"
      by (auto simp: NewPage_def Let_def split: sum.splits)
    have "pool_inv ?b4"
      by (rule pool_inv_same [OF r(1)])
         (auto simp: DiskSchedule_def ResetMemory_def split: if_splits)
    from pool_inv_Init [OF this init] have "pool_inv b5" .
    then show ?thesis
      by (rule pool_inv_same) (simp_all add: b' AllocatePage_def)
  qed
qed

lemma pool_inv_FetchPage:
  assumes inv: "pool_inv b" and fetch: "FetchPage b pid = Inr (b', res)"
  shows "pool_inv b'"
proof (cases "page_table b pid")
  case (Some f)
  let ?page = "pages b f"
  from fetch Some obtain r1 r2 where s: "SetEvictable (replacer b) f False = Inr r1"
    and a: "RecordAccess r1 f = Inr r2"
    and b': "b' = b\<lparr>pages := (pages b)(f := ?page\<lparr>pin_count := pin_count ?page + 1\<rparr>),
                     replacer := r2\<rparr>"
    by (auto simp: FetchPage_def Let_def split: sum.splits)
  note pr = pin_and_record [OF s a]
  from inv have d: "distinct (map fst (node_store (replacer b)))"
    and pins: "\<And>g. 0 \<le> pin_count (pages b g)"
    by (simp_all add: pool_inv_def)
  from pr(4) obtain n' where n': "map_of (node_store r2) = (map_of (node_store (replacer b)))(f \<mapsto> n')"
    "fid n' = f" "\<not> is_evictable n'"
    by blast
  have rng: "\<And>g. out_of_range r2 g = out_of_range (replacer b) g"
    using pr(2) by (rule out_of_range_cong)
  have 1: "distinct (map fst (node_store (replacer b')))"
    using pr(3) [OF d] by (simp add: b')
  have 2: "fid n = g \<and> \<not> out_of_range (replacer b') g \<and>
        (\<not> is_evictable n \<longrightarrow> 0 < pin_count (pages b' g))"
    if "map_of (node_store (replacer b')) g = Some n" for g n
  proof -
    from that have "(g = f \<and> n = n') \<or> (g \<noteq> f \<and> map_of (node_store (replacer b)) g = Some n)"
      by (auto simp: b' n'(1) split: if_splits)
    then show ?thesis
      using inv n'(2) pr(1) rng pins [of f] by (auto simp: pool_inv_def b')
  qed
  have 3: "\<not> out_of_range (replacer b') g" if "page_table b' p = Some g" for p g
    using that inv rng by (auto simp: pool_inv_def b')
  have 4: "\<not> out_of_range (replacer b') g" if "g \<in> set (free_list b')" for g
    using that inv rng by (auto simp: pool_inv_def b')
  have 5: "0 \<le> pin_count (pages b' g)" for g
    using pins [of g] pins [of f] by (auto simp: b')
  from 1 2 3 4 5 show ?thesis
    unfolding pool_inv_def by blast
next
  case None
  from fetch None obtain b1 f where req: "RequestFrameId b = Inr (b1, f)"
    by (auto simp: FetchPage_def split: sum.splits)
  note r = pool_inv_RequestFrameId [OF inv req]
  show ?thesis
  proof (cases "f = INVALID_FRAME_ID")
    case True
    with fetch req None have "b' = b1" by (simp add: FetchPage_def)
    with r(1) show ?thesis by simp
  next
    case False
    let ?page = "pages b1 f"
    let ?b2 = "if is_dirty ?page \<and> strlen_positive (data ?page)
               then DiskSchedule b1 True f (page_id ?page) else b1"
    let ?b3 = "?b2\<lparr>page_table := (page_table ?b2)(page_id ?page := None)\<rparr>"
    let ?b4 = "?b3\<lparr>pages := (pages ?b3)(f := ResetMemory (pages ?b3 f))\<rparr>"
    from fetch req None False obtain b5 where init: "InitPageOnBufferPool ?b4 pid f = Inr b5"
      and b': "b' = DiskSchedule b5 False f pid"
      by (auto simp: FetchPage_def Let_def split: sum.splits)
    have "pool_inv ?b4"
      by (rule pool_inv_same [OF r(1)])
         (auto simp: DiskSchedule_def ResetMemory_def split: if_splits)
    from pool_inv_Init [OF this init] have "pool_inv b5" .
    then show ?thesis
      by (rule pool_inv_same) (simp_all add: b' DiskSchedule_def)
  qed
qed

lemma pool_inv_UnpinPage:
  assumes inv: "pool_inv b" and unpin: "UnpinPage b pid dirty = Inr (b', res)"
  shows "pool_inv b'"
proof (cases "page_table b pid")
  case None
  with unpin have "b' = b" by (simp add: UnpinPage_def)
  with inv show ?thesis by simp
next
  case (Some f)
  let ?page = "pages b f"
  show ?thesis
  proof (cases "pin_count ?page \<le> 0")
    case True
    with unpin Some have "b' = b" by (simp add: UnpinPage_def Let_def)
    with inv show ?thesis by simp
  next
    case False
    let ?page1 = "?page\<lparr>pin_count := pin_count ?page - 1\<rparr>"
    from unpin Some False obtain r1 where
      r1: "(if pin_count ?page1 = 0 then SetEvictable (replacer b) f True
            else Inr (replacer b)) = Inr r1"
      and b': "b' = b\<lparr>pages := (pages b)(f := ?page1\<lparr>is_dirty := dirty\<rparr>), replacer := r1\<rparr>"
      by (auto simp: UnpinPage_def Let_def split: sum.splits)
    from inv have d: "distinct (map fst (node_store (replacer b)))"
      and pins: "\<And>g. 0 \<le> pin_count (pages b g)"
      by (simp_all add: pool_inv_def)
    have size: "replacer_size r1 = replacer_size (replacer b)"
      and dist: "distinct (map fst (node_store r1))"
      and nodes: "\<And>g n. map_of (node_store r1) g = Some n \<Longrightarrow>
          (g = f \<and> pin_count ?page = 1 \<and> is_evictable n \<and>
             (\<exists>m. map_of (node_store (replacer b)) f = Some m \<and> fid n = fid m)) \<or>
          ((g \<noteq> f \<or> pin_count ?page \<noteq> 1) \<and> map_of (node_store (replacer b)) g = Some n)"
    proof -
      show "replacer_size r1 = replacer_size (replacer b)"
        using r1 SetEvictable_spec(2) by (auto split: if_splits)
      show "distinct (map fst (node_store r1))"
        using r1 d SetEvictable_spec(3) by (auto split: if_splits)
      fix g n assume g: "map_of (node_store r1) g = Some n"
      show "(g = f \<and> pin_count ?page = 1 \<and> is_evictable n \<and>
             (\<exists>m. map_of (node_store (replacer b)) f = Some m \<and> fid n = fid m)) \<or>
          ((g \<noteq> f \<or> pin_count ?page \<noteq> 1) \<and> map_of (node_store (replacer b)) g = Some n)"
      proof (cases "pin_count ?page = 1")
        case False
        with r1 g show ?thesis by auto
      next
        case True
        with r1 have s: "SetEvictable (replacer b) f True = Inr r1" by simp
        from SetEvictable_spec(4) [OF s] g True show ?thesis
          by (auto split: option.splits if_splits)
      qed
    qed
    have rng: "\<And>g. out_of_range r1 g = out_of_range (replacer b) g"
      using size by (rule out_of_range_cong)
    have 1: "distinct (map fst (node_store (replacer b')))"
      using dist by (simp add: b')
    have 2: "fid n = g \<and> \<not> out_of_range (replacer b') g \<and>
        (\<not> is_evictable n \<longrightarrow> 0 < pin_count (pages b' g))"
      if "map_of (node_store (replacer b')) g = Some n" for g n
    proof -
      from that have "map_of (node_store r1) g = Some n" by (simp add: b')
      from nodes [OF this] show ?thesis
        using inv rng False by (auto simp: pool_inv_def b')
    qed
    have 3: "\<not> out_of_range (replacer b') g" if "page_table b' p = Some g" for p g
      using that inv rng by (auto simp: pool_inv_def b')
    have 4: "\<not> out_of_range (replacer b') g" if "g \<in> set (free_list b')" for g
      using that inv rng by (auto simp: pool_inv_def b')
    have 5: "0 \<le> pin_count (pages b' g)" for g
      using pins [of g] False by (auto simp: b')
    from 1 2 3 4 5 show ?thesis
      unfolding pool_inv_def by blast
  qed
qed

lemma pool_inv_FlushPage:
  assumes "pool_inv b" "FlushPage b pid = (b', res)"
  shows "pool_inv b'"
proof (cases "page_table b pid")
  case None
  with assms show ?thesis by (simp add: FlushPage_def)
next
  case (Some f)
  with assms(2) have b': "b' = (DiskSchedule b True f (page_id (pages b f)))
      \<lparr>pages := (pages (DiskSchedule b True f (page_id (pages b f))))
         (f := (pages (DiskSchedule b True f (page_id (pages b f))) f)\<lparr>is_dirty := False\<rparr>)\<rparr>"
    by (auto simp: FlushPage_def Let_def)
  show ?thesis
    by (rule pool_inv_same [OF assms(1)]) (simp_all add: b' DiskSchedule_def)
qed

lemma pool_inv_removable:
  assumes "pool_inv b" "page_table b pid = Some f" "\<not> 0 < pin_count (pages b f)"
  shows "removable b f"
  using assms unfolding pool_inv_def removable_def by blast

lemma pool_inv_DeletePage:
  assumes inv: "pool_inv b" and del: "DeletePage b pid = Inr (b', res)"
  shows "pool_inv b'"
proof (cases "page_table b pid")
  case None
  with del have "b' = b" by (simp add: DeletePage_def)
  with inv show ?thesis by simp
next
  case (Some f)
  show ?thesis
  proof (cases "0 < pin_count (pages b f)")
    case True
    with del Some have "b' = b" by (simp add: DeletePage_def)
    with inv show ?thesis by simp
  next
    case False
    with del Some obtain r1 where rm: "Remove (replacer b) f = Inr r1"
      and b': "b' = DeallocatePage
          (b\<lparr>page_table := (page_table b)(pid := None), replacer := r1,
              free_list := free_list b @ [f],
              pages := (pages b)(f := (ResetMemory (pages b f))
                 \<lparr>page_id := INVALID_PAGE_ID, pin_count := 0, is_dirty := False\<rparr>)\<rparr>) pid"
      by (auto simp: DeletePage_def Let_def split: sum.splits)
    note r = Remove_spec [OF rm]
    from inv have d: "distinct (map fst (node_store (replacer b)))"
      and pins: "\<And>g. 0 \<le> pin_count (pages b g)"
      and f: "\<not> out_of_range (replacer b) f"
      using Some by (simp_all add: pool_inv_def)
    have rng: "\<And>g. out_of_range r1 g = out_of_range (replacer b) g"
      using r(1) by (rule out_of_range_cong)
    have 1: "distinct (map fst (node_store (replacer b')))"
      using r(2) [OF d] by (simp add: b' DeallocatePage_def)
    have 2: "fid n = g \<and> \<not> out_of_range (replacer b') g \<and>
        (\<not> is_evictable n \<longrightarrow> 0 < pin_count (pages b' g))"
      if "map_of (node_store (replacer b')) g = Some n" for g n
    proof -
      from that have "g \<noteq> f \<and> map_of (node_store (replacer b)) g = Some n"
        by (auto simp: b' DeallocatePage_def r(3) split: if_splits)
      then show ?thesis
        using inv rng by (auto simp: pool_inv_def b' DeallocatePage_def)
    qed
    have 3: "\<not> out_of_range (replacer b') g" if "page_table b' p = Some g" for p g
      using that inv rng by (auto simp: pool_inv_def b' DeallocatePage_def split: if_splits)
    have 4: "\<not> out_of_range (replacer b') g" if "g \<in> set (free_list b')" for g
      using that inv rng f by (auto simp: pool_inv_def b' DeallocatePage_def)
    have 5: "0 \<le> pin_count (pages b' g)" for g
      using pins [of g] by (auto simp: b' DeallocatePage_def)
    from 1 2 3 4 5 show ?thesis
      unfolding pool_inv_def by blast
  qed
qed

lemma pool_inv_write_buffer: "pool_inv b \<Longrightarrow> pool_inv (write_buffer b f bytes)"
  by (rule pool_inv_same) (simp_all add: write_buffer_def)

lemma pool_inv_new:
  assumes "n < 2 ^ 31"
  shows "pool_inv (BufferPoolManager_new page_size n k disk0)"
proof -
  have "\<not> out_of_range (LRUKReplacer_new (of_nat n) k) (int i)" if "i < n" for i
  proof -
    have "(word_of_int (int i) :: size_t) \<le> of_nat n"
      using that assms by (simp add: word_le_nat_alt unat_of_nat take_bit_nat_eq_self)
    then show ?thesis
      by (simp add: out_of_range_def LRUKReplacer_new_def not_less)
  qed
  then show ?thesis
    by (auto simp: pool_inv_def BufferPoolManager_new_def LRUKReplacer_new_def new_Page_def)
qed

lemma UnpinPage_returns:
  assumes "pool_inv b"
  shows "\<exists>res. UnpinPage b pid dirty = Inr res"
proof (cases "page_table b pid")
  case None
  then have "UnpinPage b pid dirty = Inr (b, False)" by (simp add: UnpinPage_def)
  then show ?thesis by blast
next
  case (Some f)
  with assms have "\<not> out_of_range (replacer b) f"
    by (auto simp: pool_inv_def)
  then obtain r1 where "SetEvictable (replacer b) f True = Inr r1"
    using SetEvictable_returns by blast
  with Some show ?thesis
    by (auto simp: UnpinPage_def Let_def)
qed

lemma pool_inv_state_or:
  assumes "pool_inv b" "\<And>b' res. x = Inr (b', res) \<Longrightarrow> pool_inv b'"
  shows "pool_inv (state_or b x)"
  using assms by (cases x) (auto simp: state_or_def)

lemma pool_inv_pool0: "pool_inv pool0"
  unfolding pool0_def by (rule pool_inv_new) simp

lemma pool_inv_one_pinned: "pool_inv one_pinned"
  unfolding one_pinned_def
  by (rule pool_inv_state_or [OF pool_inv_pool0]) (rule pool_inv_NewPage [OF pool_inv_pool0])

lemma pool_inv_twice_pinned: "pool_inv twice_pinned"
  unfolding twice_pinned_def
  by (rule pool_inv_state_or [OF pool_inv_one_pinned])
     (rule pool_inv_FetchPage [OF pool_inv_one_pinned])

lemma pool_inv_unpinned: "pool_inv unpinned"
  unfolding unpinned_def
  by (rule pool_inv_state_or [OF pool_inv_one_pinned])
     (rule pool_inv_UnpinPage [OF pool_inv_one_pinned])

lemma pool_inv_dirty_nonzero_first: "pool_inv dirty_nonzero_first"
  unfolding dirty_nonzero_first_def Let_def
  by (rule pool_inv_state_or [OF pool_inv_write_buffer [OF pool_inv_one_pinned]])
     (rule pool_inv_UnpinPage [OF pool_inv_write_buffer [OF pool_inv_one_pinned]])

subsection \<open>NewPage on an exhausted pool\<close>

lemma RequestFrameId_exhausted:
  assumes "free_list b = []"
    and "Size (replacer b) = 0 \<or> (\<forall>e \<in> set (node_store (replacer b)). \<not> is_evictable (snd e))"
  shows "RequestFrameId b = Inr (b, INVALID_FRAME_ID)"
  using assms by (auto simp: RequestFrameId_def Evict_none)

text \<open>
  Claim C10. When the free list is empty and the replacer has no evictable frame (its
  \<open>Size()\<close> is 0, or no node of its store is evictable), \<open>NewPage\<close> returns the null
  pointer and the pool is exactly as before: the counter of page ids, the page table, the
  free list, the replacer and every frame.
\<close>

theorem NewPage_exhausted_unchanged:
  assumes "free_list b = []"
    and "Size (replacer b) = 0 \<or> \<not> has_evictable (replacer b)"
  shows "NewPage b = Inr (b, None)"
proof -
  from assms(2) have "Size (replacer b) = 0 \<or>
      (\<forall>e \<in> set (node_store (replacer b)). \<not> is_evictable (snd e))"
    by (simp add: has_evictable_def)
  from RequestFrameId_exhausted [OF assms(1) this] show ?thesis
    by (simp add: NewPage_def)
qed

text \<open>The pool of one frame with its page pinned: the next page id stays 1.\<close>

theorem NewPage_exhausted_unchanged_witness:
  "free_list one_pinned = [] \<and> \<not> has_evictable (replacer one_pinned) \<and>
   next_page_id one_pinned = 1 \<and> NewPage one_pinned = Inr (one_pinned, None)"
proof -
  have fl: "free_list one_pinned = []"
    by (simp add: scenario_defs pool_defs replacer_defs Let_def)
  have ne: "\<not> has_evictable (replacer one_pinned)"
    by (simp add: has_evictable_def scenario_defs pool_defs replacer_defs Let_def)
  have np: "next_page_id one_pinned = 1"
    by (simp add: scenario_defs pool_defs replacer_defs Let_def)
  from fl ne np NewPage_exhausted_unchanged [OF fl disjI2 [OF ne]] show ?thesis by simp
qed

subsection \<open>DeletePage\<close>

text \<open>
  Claim C5. \<open>DeletePage(p)\<close> returns true and changes nothing when \<open>p\<close> is not resident;
  returns false and changes nothing when \<open>p\<close> is resident and pinned; and otherwise, in
  every state the pool gets into, it returns true, \<open>p\<close> is no longer in the page table,
  the frame's node is no longer in the replacer, the frame is at the end of the free list,
  the frame has the invalid page id, no pin and is clean, no other frame has changed, and
  the disk layer has been told to deallocate \<open>p\<close>.
\<close>

theorem DeletePage_cases:
  "(page_table b pid = None \<longrightarrow> DeletePage b pid = Inr (b, True)) \<and>
   (\<forall>f. page_table b pid = Some f \<and> 0 < pin_count (pages b f) \<longrightarrow>
      DeletePage b pid = Inr (b, False)) \<and>
   (\<forall>f. pool_inv b \<and> page_table b pid = Some f \<and> \<not> 0 < pin_count (pages b f) \<longrightarrow>
      (\<exists>b'. DeletePage b pid = Inr (b', True) \<and>
         page_table b' = (page_table b)(pid := None) \<and>
         node_store (replacer b') = AList.delete f (node_store (replacer b)) \<and>
         map_of (node_store (replacer b')) f = None \<and>
         free_list b' = free_list b @ [f] \<and>
         page_id (pages b' f) = INVALID_PAGE_ID \<and>
         pin_count (pages b' f) = 0 \<and>
         \<not> is_dirty (pages b' f) \<and>
         (\<forall>g. g \<noteq> f \<longrightarrow> pages b' g = pages b g) \<and>
         disk_calls b' = disk_calls b @ [Deallocate pid]))"
proof (intro conjI allI impI)
  assume "page_table b pid = None"
  then show "DeletePage b pid = Inr (b, True)" by (simp add: DeletePage_def)
next
  fix f assume "page_table b pid = Some f \<and> 0 < pin_count (pages b f)"
  then show "DeletePage b pid = Inr (b, False)" by (simp add: DeletePage_def)
next
  fix f assume a: "pool_inv b \<and> page_table b pid = Some f \<and> \<not> 0 < pin_count (pages b f)"
  then have "removable b f" using pool_inv_removable [of b pid f] by blast
  then obtain r' where r': "Remove (replacer b) f = Inr r'"
    "node_store r' = AList.delete f (node_store (replacer b))"
    using Remove_ok [of "replacer b" f] by (auto simp: removable_def)
  have "map_of (AList.delete f (node_store (replacer b))) f = None"
    by (simp add: delete_conv)
  with a r' show "\<exists>b'. DeletePage b pid = Inr (b', True) \<and>
         page_table b' = (page_table b)(pid := None) \<and>
         node_store (replacer b') = AList.delete f (node_store (replacer b)) \<and>
         map_of (node_store (replacer b')) f = None \<and>
         free_list b' = free_list b @ [f] \<and>
         page_id (pages b' f) = INVALID_PAGE_ID \<and>
         pin_count (pages b' f) = 0 \<and>
         \<not> is_dirty (pages b' f) \<and>
         (\<forall>g. g \<noteq> f \<longrightarrow> pages b' g = pages b g) \<and>
         disk_calls b' = disk_calls b @ [Deallocate pid]"
    by (simp add: DeletePage_def DeallocatePage_def Let_def)
qed

text \<open>The three cases on the pool of one frame.\<close>

theorem DeletePage_cases_witness:
  "page_table pool0 7 = None \<and> DeletePage pool0 7 = Inr (pool0, True) \<and>
   page_table one_pinned 0 = Some 0 \<and> 0 < pin_count (pages one_pinned 0) \<and>
   DeletePage one_pinned 0 = Inr (one_pinned, False) \<and>
   pool_inv unpinned \<and> page_table unpinned 0 = Some 0 \<and>
   \<not> 0 < pin_count (pages unpinned 0) \<and>
   (\<exists>b'. DeletePage unpinned 0 = Inr (b', True) \<and> page_table b' 0 = None \<and>
      node_store (replacer b') = [] \<and> free_list b' = [0] \<and>
      pages b' 0 = \<lparr>data = [0, 0, 0, 0], page_id = - 1, pin_count = 0, is_dirty = False\<rparr> \<and>
      disk_calls b' = [Deallocate 0])"
proof -
  have a: "page_table pool0 7 = None"
    by (simp add: scenario_defs pool_defs)
  have b: "page_table one_pinned 0 = Some 0 \<and> 0 < pin_count (pages one_pinned 0)"
    by (simp add: scenario_defs pool_defs replacer_defs Let_def)
  have c: "pool_inv unpinned \<and> page_table unpinned 0 = Some 0 \<and>
      \<not> 0 < pin_count (pages unpinned 0)"
    by (simp add: pool_inv_unpinned) (simp add: scenario_defs pool_defs replacer_defs Let_def)
  have st: "node_store (replacer unpinned) =
        [(0, \<lparr>history = [1], fid = 0, is_evictable = True\<rparr>)]"
      "free_list unpinned = []" "disk_calls unpinned = []"
    by (simp_all add: scenario_defs pool_defs replacer_defs Let_def)
  from DeletePage_cases [of pool0 7] a
  have 1: "DeletePage pool0 7 = Inr (pool0, True)" by simp
  from DeletePage_cases [of one_pinned 0] b
  have 2: "DeletePage one_pinned 0 = Inr (one_pinned, False)" by simp
  from DeletePage_cases [of unpinned 0] c
  obtain b' where 3: "DeletePage unpinned 0 = Inr (b', True)" "page_table b' 0 = None"
    "node_store (replacer b') = AList.delete 0 (node_store (replacer unpinned))"
    "free_list b' = free_list unpinned @ [0]" "page_id (pages b' 0) = INVALID_PAGE_ID"
    "pin_count (pages b' 0) = 0" "\<not> is_dirty (pages b' 0)"
    "disk_calls b' = disk_calls unpinned @ [Deallocate 0]"
    by auto
  have "\<exists>b. DeletePage unpinned 0 = Inr (b, True) \<and> data (pages b 0) = [0, 0, 0, 0]"
    by (simp add: scenario_defs pool_defs replacer_defs Let_def)
  with 3(1) have d: "data (pages b' 0) = [0, 0, 0, 0]"
    by auto
  have "pages b' 0 = \<lparr>data = [0, 0, 0, 0], page_id = - 1, pin_count = 0, is_dirty = False\<rparr>"
    using 3(5,6,7) d by (cases "pages b' 0") (simp add: INVALID_PAGE_ID_def)
  with a b c 1 2 3 st show ?thesis by auto
qed

subsection \<open>UnpinPage and the dirty flag\<close>

text \<open>A successful \<open>UnpinPage\<close> leaves the frame's dirty flag equal to its argument.\<close>

lemma UnpinPage_overwrites:
  assumes "UnpinPage b pid dirty = Inr (b', True)" "page_table b pid = Some f"
  shows "is_dirty (pages b' f) = dirty"
  using assms by (auto simp: UnpinPage_def Let_def split: if_splits sum.splits)

text \<open>
  Claim C2 says that \<open>UnpinPage\<close> ORs its argument into the dirty flag, so that a page
  once marked dirty stays dirty until it is flushed. Page 0 is resident and pinned twice;
  \<open>UnpinPage(0, true)\<close> marks it dirty; \<open>UnpinPage(0, false)\<close> then returns true and
  leaves the page clean, and nothing has been written to the disk.
\<close>

theorem clean_unpin_clears_dirty:
  "page_table twice_pinned 0 = Some 0 \<and> pin_count (pages twice_pinned 0) = 2 \<and>
   UnpinPage twice_pinned 0 True = Inr (marked_dirty, True) \<and>
   is_dirty (pages marked_dirty 0) \<and>
   (\<exists>b. UnpinPage marked_dirty 0 False = Inr (b, True) \<and> \<not> is_dirty (pages b 0) \<and> disk_calls b = [])"
  by (simp add: scenario_defs pool_defs replacer_defs Let_def)

subsection \<open>The write of a dirty victim\<close>

lemma RequestFrameId_keeps:
  assumes "RequestFrameId b = Inr (b1, f)"
  shows "pages b1 = pages b" "disk_calls b1 = disk_calls b" "disk b1 = disk b"
    "page_table b1 = page_table b" "next_page_id b1 = next_page_id b"
    "replacer_size (replacer b1) = replacer_size (replacer b)"
  using assms
  by (auto simp: RequestFrameId_def split: list.splits if_splits sum.splits dest: Evict_keeps)

lemma InitPageOnBufferPool_returns:
  assumes "\<not> out_of_range (replacer b) f"
  shows "\<exists>b'. InitPageOnBufferPool b pid f = Inr b' \<and> disk_calls b' = disk_calls b \<and>
           disk b' = disk b \<and> data (pages b' f) = data (pages b f) \<and>
           next_page_id b' = next_page_id b \<and> page_table b' pid = Some f \<and>
           pin_count (pages b' f) = 1 \<and> page_id (pages b' f) = pid \<and> \<not> is_dirty (pages b' f)"
proof -
  from assms obtain r1 where r1: "SetEvictable (replacer b) f False = Inr r1"
    using SetEvictable_returns by blast
  then have "\<not> out_of_range r1 f"
    using assms SetEvictable_keeps [OF r1] by (simp add: out_of_range_def)
  then obtain r2 where "RecordAccess r1 f = Inr r2"
    using RecordAccess_returns by blast
  with r1 show ?thesis
    by (simp add: InitPageOnBufferPool_def Let_def)
qed

text \<open>
  What the miss paths hand to the disk. In every state the pool gets into, when \<open>NewPage\<close>
  or a \<open>FetchPage\<close> miss reuses a frame whose contents are dirty, the call returns the
  frame, and the calls it has made to the disk are: a write of the victim's page if the
  first byte of its buffer is not zero, and no write if it is zero; then, for \<open>FetchPage\<close>,
  the read of the requested page. After \<open>NewPage\<close> the buffer is zeroed, and the frame
  carries the new page id.
\<close>

lemma dirty_victim_writes:
  assumes "pool_inv b" and "RequestFrameId b = Inr (b1, f)" and "f \<noteq> INVALID_FRAME_ID"
    and "is_dirty (pages b f)"
  shows "(\<exists>b'. NewPage b = Inr (b', Some (next_page_id b, f)) \<and>
            disk_calls b' = disk_calls b @ victim_write (pages b f) \<and>
            data (pages b' f) = replicate (length (data (pages b f))) 0 \<and>
            page_id (pages b' f) = next_page_id b) \<and>
         (page_table b pid = None \<longrightarrow>
            (\<exists>b'. FetchPage b pid = Inr (b', Some f) \<and>
               disk_calls b' = disk_calls b @ victim_write (pages b f) @ [ReadRequest pid] \<and>
               page_id (pages b' f) = pid))"
proof -
  note k = RequestFrameId_keeps [OF assms(2)]
  have in_range: "\<not> out_of_range (replacer b1) f"
    using pool_inv_RequestFrameId(2) [OF assms(1,2,3)] .
  let ?page = "pages b f"
  let ?b2 = "if is_dirty ?page \<and> strlen_positive (data ?page)
             then DiskSchedule b1 True f (page_id ?page) else b1"
  let ?b3 = "?b2\<lparr>page_table := (page_table ?b2)(page_id ?page := None)\<rparr>"
  let ?b4 = "?b3\<lparr>pages := (pages ?b3)(f := ResetMemory (pages ?b3 f))\<rparr>"
  have range: "\<not> out_of_range (replacer ?b4) f"
    using in_range by (simp add: DiskSchedule_def)
  have calls: "disk_calls ?b4 = disk_calls b @ victim_write ?page"
    using k assms(4) by (simp add: victim_write_def DiskSchedule_def)
  have zero: "data (pages ?b4 f) = replicate (length (data ?page)) 0"
    using k by (simp add: ResetMemory_def DiskSchedule_def)
  have next_id: "next_page_id ?b4 = next_page_id b"
    using k by (simp add: DiskSchedule_def)
  have new: "\<exists>b'. NewPage b = Inr (b', Some (next_page_id b, f)) \<and>
            disk_calls b' = disk_calls b @ victim_write (pages b f) \<and>
            data (pages b' f) = replicate (length (data (pages b f))) 0 \<and>
            page_id (pages b' f) = next_page_id b"
  proof -
    from InitPageOnBufferPool_returns [OF range, of "next_page_id b"]
    obtain b5 where b5: "InitPageOnBufferPool ?b4 (next_page_id b) f = Inr b5"
      "disk_calls b5 = disk_calls ?b4" "data (pages b5 f) = data (pages ?b4 f)"
      "page_id (pages b5 f) = next_page_id b"
      by blast
    have "NewPage b = Inr (fst (AllocatePage b5), Some (next_page_id b, f))"
      using assms(2,3) b5(1) k(1) next_id by (simp add: NewPage_def Let_def)
    moreover have "disk_calls (fst (AllocatePage b5)) = disk_calls b @ victim_write ?page"
      using b5(2) calls by (simp add: AllocatePage_def)
    moreover have "data (pages (fst (AllocatePage b5)) f) = replicate (length (data ?page)) 0"
      using b5(3) zero by (simp add: AllocatePage_def)
    moreover have "page_id (pages (fst (AllocatePage b5)) f) = next_page_id b"
      using b5(4) by (simp add: AllocatePage_def)
    ultimately show ?thesis by blast
  qed
  have fetch: "\<exists>b'. FetchPage b pid = Inr (b', Some f) \<and>
               disk_calls b' = disk_calls b @ victim_write (pages b f) @ [ReadRequest pid] \<and>
               page_id (pages b' f) = pid"
    if miss: "page_table b pid = None"
  proof -
    from InitPageOnBufferPool_returns [OF range, of pid]
    obtain b5 where b5: "InitPageOnBufferPool ?b4 pid f = Inr b5"
      "disk_calls b5 = disk_calls ?b4" "page_id (pages b5 f) = pid"
      by blast
    have "FetchPage b pid = Inr (DiskSchedule b5 False f pid, Some f)"
      using assms(2,3) b5(1) k(1) miss by (simp add: FetchPage_def Let_def)
    moreover have "disk_calls (DiskSchedule b5 False f pid) =
        disk_calls b @ victim_write ?page @ [ReadRequest pid]"
      using b5(2) calls by (simp add: DiskSchedule_def)
    moreover have "page_id (pages (DiskSchedule b5 False f pid) f) = pid"
      using b5(3) by (simp add: DiskSchedule_def)
    ultimately show ?thesis by blast
  qed
  from new fetch show ?thesis by blast
qed

text \<open>A dirty page whose buffer starts with 1 is written before its frame is reused.\<close>

lemma dirty_nonzero_first_written:
  "pool_inv dirty_nonzero_first \<and>
   (\<exists>b1. RequestFrameId dirty_nonzero_first = Inr (b1, 0)) \<and>
   0 \<noteq> INVALID_FRAME_ID \<and>
   is_dirty (pages dirty_nonzero_first 0) \<and>
   page_table dirty_nonzero_first 5 = None \<and>
   (\<exists>b'. NewPage dirty_nonzero_first = Inr (b', Some (1, 0)) \<and>
      disk_calls b' = [WriteRequest 0 [1, 2, 3, 4]] \<and> data (pages b' 0) = [0, 0, 0, 0]) \<and>
   (\<exists>b'. FetchPage dirty_nonzero_first 5 = Inr (b', Some 0) \<and>
      disk_calls b' = [WriteRequest 0 [1, 2, 3, 4], ReadRequest 5])"
proof -
  note i = pool_inv_dirty_nonzero_first
  obtain b1 where r: "RequestFrameId dirty_nonzero_first = Inr (b1, 0)"
    by (simp add: scenario_defs pool_defs replacer_defs Let_def)
  have v: "(0::int) \<noteq> INVALID_FRAME_ID"
    by (simp add: INVALID_FRAME_ID_def)
  have d: "is_dirty (pages dirty_nonzero_first 0)"
    by (simp add: scenario_defs pool_defs replacer_defs Let_def)
  have st: "page_table dirty_nonzero_first 5 = None" "next_page_id dirty_nonzero_first = 1"
    "disk_calls dirty_nonzero_first = []"
    "pages dirty_nonzero_first 0 =
       \<lparr>data = [1, 2, 3, 4], page_id = 0, pin_count = 0, is_dirty = True\<rparr>"
    by (simp_all add: scenario_defs pool_defs replacer_defs Let_def)
  from dirty_victim_writes [OF i r v d, of 5] st
  have "(\<exists>b'. NewPage dirty_nonzero_first = Inr (b', Some (1, 0)) \<and>
      disk_calls b' = [WriteRequest 0 [1, 2, 3, 4]] \<and> data (pages b' 0) = [0, 0, 0, 0]) \<and>
   (\<exists>b'. FetchPage dirty_nonzero_first 5 = Inr (b', Some 0) \<and>
      disk_calls b' = [WriteRequest 0 [1, 2, 3, 4], ReadRequest 5])"
    by (auto simp: victim_write_def strlen_positive_def)
  with i r v d st(1) show ?thesis
    by blast
qed

text \<open>
  Claim C3 says that every dirty victim is written to the disk before its frame is cleared
  and reused, whatever its buffer holds. Page 0 is resident, unpinned and dirty, and its
  buffer is 0, 1, 2, 3. \<open>NewPage\<close> reuses its frame for page 1 and \<open>FetchPage(5)\<close> for
  page 5: the buffer has been zeroed, and no write has been handed to the disk, whose image
  of page 0 is still the zeros it had. \<open>FlushPage(0)\<close> on the same state writes the page.
\<close>

theorem dirty_victim_with_zero_first_byte_not_written:
  "is_dirty (pages dirty_zero_first 0) \<and>
   data (pages dirty_zero_first 0) = [0, 1, 2, 3] \<and>
   page_id (pages dirty_zero_first 0) = 0 \<and>
   pin_count (pages dirty_zero_first 0) = 0 \<and>
   free_list dirty_zero_first = [] \<and>
   disk_calls dirty_zero_first = [] \<and>
   page_table (state_or dirty_zero_first (NewPage dirty_zero_first)) 1 = Some 0 \<and>
   page_table (state_or dirty_zero_first (NewPage dirty_zero_first)) 0 = None \<and>
   data (pages (state_or dirty_zero_first (NewPage dirty_zero_first)) 0) = [0, 0, 0, 0] \<and>
   disk_calls (state_or dirty_zero_first (NewPage dirty_zero_first)) = [] \<and>
   disk (state_or dirty_zero_first (NewPage dirty_zero_first)) 0 = [0, 0, 0, 0] \<and>
   page_table (state_or dirty_zero_first (FetchPage dirty_zero_first 5)) 5 = Some 0 \<and>
   page_table (state_or dirty_zero_first (FetchPage dirty_zero_first 5)) 0 = None \<and>
   disk_calls (state_or dirty_zero_first (FetchPage dirty_zero_first 5)) = [ReadRequest 5] \<and>
   disk_calls (fst (FlushPage dirty_zero_first 0)) = [WriteRequest 0 [0, 1, 2, 3]]"
  by (simp add: scenario_defs pool_defs replacer_defs Let_def)

section \<open>Properties of the guards\<close>

lemmas guard_defs = world0_def two_holders_def handover_def holding0_def BasicPageGuard_new_def null_guard_def
  BasicPageGuard_move_def BasicPageGuard_Drop_def Drop_at_def move_construct_at_def
  move_assign_at_def destroy_at_def call_UnpinPage_def

subsection \<open>Drop of the read and write guards\<close>

text \<open>
  The branch of \<open>Drop\<close> for a read or write guard whose inner guard holds a frame: it
  calls \<open>UnpinPage\<close> and then releases the latch. No constructor of these guards fills the
  inner guard, so no guard the pool hands out takes this branch.
\<close>

lemma filled_guard_Drop:
  assumes "pool_inv (pool w)"
    and "guard = \<lparr>bpm = Ptr u, page = Ptr frame, guard_is_dirty = dirty\<rparr>"
  shows "\<exists>b' ret.
            UnpinPage (pool w) (page_id (pages (pool w) frame)) dirty = Inr (b', ret) \<and>
            ReadPageGuard_Drop w \<lparr>r_guard = guard\<rparr> =
              Inr (w\<lparr>pool := b',
                      calls := calls w @ [UnpinPage_called (page_id (pages (pool w) frame)) dirty,
                                          RUnlatch_called frame]\<rparr>,
                   \<lparr>r_guard = \<lparr>bpm = nullptr, page = nullptr, guard_is_dirty = dirty\<rparr>\<rparr>) \<and>
            WritePageGuard_Drop w \<lparr>w_guard = guard\<rparr> =
              Inr (w\<lparr>pool := b',
                      calls := calls w @ [UnpinPage_called (page_id (pages (pool w) frame)) dirty,
                                          WUnlatch_called frame]\<rparr>,
                   \<lparr>w_guard = \<lparr>bpm = nullptr, page = nullptr, guard_is_dirty = dirty\<rparr>\<rparr>)"
proof -
  from UnpinPage_returns [OF assms(1)]
  obtain b' ret where "UnpinPage (pool w) (page_id (pages (pool w) frame)) dirty = Inr (b', ret)"
    by (metis surj_pair)
  then show ?thesis
    by (intro exI [of _ b'] exI [of _ ret])
       (simp add: assms(2) ReadPageGuard_Drop_def WritePageGuard_Drop_def call_UnpinPage_def)
qed

text \<open>
  The guard that \<open>FetchPageRead\<close> or \<open>FetchPageWrite\<close> returns holds nothing, and its
  \<open>Drop\<close> changes nothing and makes no call.
\<close>

lemma fetched_guard_holds_nothing:
  "(FetchPageRead w pid = Inr (w', rg) \<longrightarrow>
      rg = \<lparr>r_guard = null_guard\<rparr> \<and> ReadPageGuard_Drop w' rg = Inr (w', rg)) \<and>
   (FetchPageWrite w pid = Inr (w', wg) \<longrightarrow>
      wg = \<lparr>w_guard = null_guard\<rparr> \<and> WritePageGuard_Drop w' wg = Inr (w', wg))"
  by (auto simp: FetchPageRead_def FetchPageWrite_def ReadPageGuard_new_def
      WritePageGuard_new_def ReadPageGuard_Drop_def WritePageGuard_Drop_def null_guard_def
      split: sum.splits option.splits)

text \<open>
  Claim C6 says that dropping a live read or write guard first releases the latch of the
  frame and then unpins the page. Page 0 is resident and pinned once. \<open>FetchPageRead(0)\<close>
  pins it a second time, takes the shared latch of frame 0 and returns a guard; dropping
  that guard makes no call and changes nothing: the latch is not released and the page
  stays pinned twice. The same holds of \<open>FetchPageWrite(0)\<close> and the exclusive latch.
\<close>

theorem fetched_guard_Drop_does_nothing:
  "(\<exists>w rg. FetchPageRead world0 0 = Inr (w, rg) \<and>
      calls w = [RLatch_called 0] \<and> pin_count (pages (pool w) 0) = 2 \<and>
      ReadPageGuard_Drop w rg = Inr (w, rg)) \<and>
   (\<exists>w wg. FetchPageWrite world0 0 = Inr (w, wg) \<and>
      calls w = [WLatch_called 0] \<and> pin_count (pages (pool w) 0) = 2 \<and>
      WritePageGuard_Drop w wg = Inr (w, wg))"
  by (simp add: FetchPageRead_def FetchPageWrite_def ReadPageGuard_new_def
      WritePageGuard_new_def ReadPageGuard_Drop_def WritePageGuard_Drop_def null_guard_def
      world0_def scenario_defs pool_defs replacer_defs Let_def)

subsection \<open>UpgradeRead and UpgradeWrite\<close>

text \<open>
  Claim C7 says that \<open>UpgradeRead\<close> and \<open>UpgradeWrite\<close> give a latched guard over the
  same frame, whose \<open>Drop\<close> releases the latch and unpins, and that the basic guard is
  invalidated. For every basic guard, the guard returned holds nothing, its \<open>Drop\<close>
  changes nothing and makes no call, and the basic guard is as it was.
\<close>

theorem Upgrade_yields_empty_guard:
  "UpgradeRead g = (g, \<lparr>r_guard = null_guard\<rparr>) \<and>
   ReadPageGuard_Drop w (snd (UpgradeRead g)) = Inr (w, snd (UpgradeRead g)) \<and>
   UpgradeWrite g = (g, \<lparr>w_guard = null_guard\<rparr>) \<and>
   WritePageGuard_Drop w (snd (UpgradeWrite g)) = Inr (w, snd (UpgradeWrite g))"
  by (simp add: UpgradeRead_def UpgradeWrite_def ReadPageGuard_new_def WritePageGuard_new_def
      ReadPageGuard_Drop_def WritePageGuard_Drop_def null_guard_def)

subsection \<open>Moves of the basic guard\<close>

lemma UnpinPage_page_id:
  "UnpinPage b pid dirty = Inr (b', ret) \<Longrightarrow> page_id (pages b' f) = page_id (pages b f)"
  by (auto simp: UnpinPage_def Let_def split: option.splits if_splits sum.splits)

lemma call_UnpinPage_effect:
  assumes "call_UnpinPage w pid dirty = Inr w'"
  shows "guards w' = guards w" "calls w' = calls w @ [UnpinPage_called pid dirty]"
    "page_id (pages (pool w') f) = page_id (pages (pool w) f)"
  using assms
  by (auto simp: call_UnpinPage_def UnpinPage_page_id split: sum.splits)

lemma holds_page_cong:
  "(\<And>f. page_id (pages (pool w') f) = page_id (pages (pool w) f)) \<Longrightarrow>
   holds_page w' pid x = holds_page w pid x"
  by (simp add: holds_page_def split: option.splits ptr.splits)

lemma holders_update:
  assumes "\<And>f. page_id (pages (pool w') f) = page_id (pages (pool w) f)"
    and "guards w' = (guards w)(a := x)"
  shows "holders w' pid =
           (if holds_page w pid x then insert a (holders w pid) else holders w pid - {a})"
  using holds_page_cong [of w' w pid, OF assms(1)] assms(2)
  by (auto simp: holders_def)

lemma unpin_calls_snoc:
  "calls w' = calls w @ [UnpinPage_called p dirty] \<Longrightarrow>
   unpin_calls w' pid = unpin_calls w pid + (if p = pid then 1 else 0)"
  by (simp add: unpin_calls_def)

lemma Drop_value_cases:
  assumes "BasicPageGuard_Drop w g = Inr (w', g')"
  shows "(page g = nullptr \<and> w' = w \<and> g' = g) \<or>
         (\<exists>frame. page g = Ptr frame \<and> page g' = nullptr \<and>
            call_UnpinPage w (page_id (pages (pool w) frame)) (guard_is_dirty g) = Inr w')"
  using assms
  by (auto simp: BasicPageGuard_Drop_def split: ptr.splits sum.splits)

lemma Drop_at_cases:
  assumes "Drop_at w a = Inr w'"
  obtains g where "guards w a = Some g" "page g = nullptr" "w' = w"
  | g g' frame where "guards w a = Some g" "page g = Ptr frame" "page g' = nullptr"
      "guards w' = (guards w)(a \<mapsto> g')"
      "calls w' = calls w @ [UnpinPage_called (page_id (pages (pool w) frame)) (guard_is_dirty g)]"
      "\<And>f. page_id (pages (pool w') f) = page_id (pages (pool w) f)"
proof -
  from assms obtain g w1 g' where g: "guards w a = Some g"
    and d: "BasicPageGuard_Drop w g = Inr (w1, g')"
    and w': "w' = w1\<lparr>guards := (guards w1)(a \<mapsto> g')\<rparr>"
    by (auto simp: Drop_at_def split: option.splits sum.splits)
  from Drop_value_cases [OF d] show ?thesis
  proof
    assume "page g = nullptr \<and> w1 = w \<and> g' = g"
    with g w' have "page g = nullptr" "w' = w"
      by (simp_all add: fun_upd_idem)
    with g that(1) show ?thesis by blast
  next
    assume "\<exists>frame. page g = Ptr frame \<and> page g' = nullptr \<and>
            call_UnpinPage w (page_id (pages (pool w) frame)) (guard_is_dirty g) = Inr w1"
    then obtain frame where f: "page g = Ptr frame" "page g' = nullptr"
      "call_UnpinPage w (page_id (pages (pool w) frame)) (guard_is_dirty g) = Inr w1"
      by blast
    note e = call_UnpinPage_effect [OF f(3)]
    show ?thesis
      by (rule that(2) [OF g f(1,2)]) (simp_all add: w' e)
  qed
qed

lemma holds_page_null: "page g = nullptr \<Longrightarrow> \<not> holds_page w pid (Some g)"
  by (simp add: holds_page_def)

lemma Drop_at_owed:
  assumes fin: "finite (holders w pid)" and d: "Drop_at w a = Inr w'"
  shows "finite (holders w' pid) \<and> owed w' pid = owed w pid"
  using d
proof (cases rule: Drop_at_cases)
  case (1 g)
  with fin show ?thesis by simp
next
  case (2 g g' frame)
  have h: "holders w' pid = holders w pid - {a}"
    using holders_update [of w' w a "Some g'" pid] 2(3,4,6) by (simp add: holds_page_null)
  have u: "unpin_calls w' pid =
      unpin_calls w pid + (if page_id (pages (pool w) frame) = pid then 1 else 0)"
    using 2(5) by (rule unpin_calls_snoc)
  have mem: "a \<in> holders w pid \<longleftrightarrow> page_id (pages (pool w) frame) = pid"
    using 2(1,2) by (simp add: holders_def holds_page_def)
  show ?thesis
  proof (cases "page_id (pages (pool w) frame) = pid")
    case True
    with mem fin have "card (holders w pid - {a}) + 1 = card (holders w pid)"
      using card.remove [of "holders w pid" a] by simp
    with True h u fin show ?thesis by (simp add: owed_def)
  next
    case False
    with mem have "holders w pid - {a} = holders w pid" by auto
    with False h u fin show ?thesis by (simp add: owed_def)
  qed
qed

lemma Drop_at_leaves_null:
  assumes "Drop_at w a = Inr w'"
  shows "\<exists>g. guards w' a = Some g \<and> page g = nullptr"
  using assms by (cases rule: Drop_at_cases) simp_all

lemma Drop_at_others:
  assumes "Drop_at w a = Inr w'" "a' \<noteq> a"
  shows "guards w' a' = guards w a'"
  using assms by (cases rule: Drop_at_cases) simp_all

lemma move_into_owed:
  assumes fin: "finite (holders w pid)"
    and not_this: "\<not> holds_page w pid (guards w this)"
    and that: "guards w that = Some g" and neq: "this \<noteq> that"
    and page_g: "page g2 = page g" and page_n: "page g3 = nullptr"
    and w': "w' = w\<lparr>guards := (guards w)(this \<mapsto> g2, that \<mapsto> g3)\<rparr>"
  shows "finite (holders w' pid) \<and> owed w' pid = owed w pid"
proof -
  have hp: "holds_page w pid (Some g2) = holds_page w pid (Some g)"
    using page_g by (simp add: holds_page_def)
  have nothis: "this \<notin> holders w pid"
    using not_this by (simp add: holders_def)
  have that_in: "that \<in> holders w pid \<longleftrightarrow> holds_page w pid (Some g)"
    using that by (simp add: holders_def)
  let ?mid = "w\<lparr>guards := (guards w)(this \<mapsto> g2)\<rparr>"
  have mid: "holders ?mid pid =
      (if holds_page w pid (Some g) then insert this (holders w pid) else holders w pid - {this})"
    using holders_update [of ?mid w this "Some g2" pid] hp by simp
  have "holders w' pid = holders ?mid pid - {that}"
    using holders_update [of w' ?mid that "Some g3" pid] holds_page_null [OF page_n, of ?mid pid]
    by (simp add: w')
  with mid neq nothis that_in have h: "holders w' pid =
      (if holds_page w pid (Some g) then insert this (holders w pid - {that})
       else holders w pid)"
    by auto
  show ?thesis
  proof (cases "holds_page w pid (Some g)")
    case True
    with that_in have "that \<in> holders w pid" by simp
    with fin nothis have "card (insert this (holders w pid - {that})) = card (holders w pid)"
      using card.remove [of "holders w pid" that] by simp
    with True h fin show ?thesis by (simp add: owed_def unpin_calls_def w')
  next
    case False
    with h fin show ?thesis by (simp add: owed_def unpin_calls_def w')
  qed
qed

lemma move_construct_at_owed:
  assumes fin: "finite (holders w pid)" and m: "move_construct_at w this that = Inr w'"
  shows "finite (holders w' pid) \<and> owed w' pid = owed w pid"
proof -
  from m obtain g where g: "guards w this = None" "guards w that = Some g"
    and w': "w' = w\<lparr>guards := (guards w)(this \<mapsto> fst (BasicPageGuard_move g),
                                           that \<mapsto> snd (BasicPageGuard_move g))\<rparr>"
    by (auto simp: move_construct_at_def split: option.splits)
  from g have neq: "this \<noteq> that" by auto
  show ?thesis
    by (rule move_into_owed [OF fin _ g(2) neq _ _ w'])
       (simp_all add: g(1) holds_page_def BasicPageGuard_move_def)
qed

lemma move_assign_at_owed:
  assumes fin: "finite (holders w pid)" and m: "move_assign_at w this that = Inr w'"
  shows "finite (holders w' pid) \<and> owed w' pid = owed w pid"
proof (cases "this = that")
  case True
  with m have "w' = w"
    by (auto simp: move_assign_at_def split: option.splits)
  with fin show ?thesis by simp
next
  case False
  with m obtain w1 g1 g2 where d: "Drop_at w this = Inr w1"
    and g: "guards w1 this = Some g1" "guards w1 that = Some g2"
    and w': "w' = w1\<lparr>guards := (guards w1)
                (this \<mapsto> g1\<lparr>bpm := bpm g2, page := page g2, guard_is_dirty := guard_is_dirty g2\<rparr>,
                 that \<mapsto> g2\<lparr>bpm := nullptr, page := nullptr, guard_is_dirty := False\<rparr>)\<rparr>"
    by (auto simp: move_assign_at_def split: option.splits sum.splits)
  from Drop_at_owed [OF fin d] have 1: "finite (holders w1 pid)" "owed w1 pid = owed w pid"
    by simp_all
  from Drop_at_leaves_null [OF d] g(1) have "page g1 = nullptr" by auto
  then have nothold: "\<not> holds_page w1 pid (guards w1 this)"
    using g(1) by (simp add: holds_page_null)
  have "finite (holders w' pid) \<and> owed w' pid = owed w1 pid"
    by (rule move_into_owed [OF 1(1) nothold g(2) False _ _ w']) simp_all
  with 1(2) show ?thesis by simp
qed

lemma destroy_at_owed:
  assumes fin: "finite (holders w pid)" and m: "destroy_at w a = Inr w'"
  shows "finite (holders w' pid) \<and> owed w' pid = owed w pid"
proof -
  from m obtain w1 where d: "Drop_at w a = Inr w1"
    and w': "w' = w1\<lparr>guards := (guards w1)(a := None)\<rparr>"
    by (auto simp: destroy_at_def split: sum.splits)
  from Drop_at_owed [OF fin d] have 1: "finite (holders w1 pid)" "owed w1 pid = owed w pid"
    by simp_all
  from Drop_at_leaves_null [OF d] have "a \<notin> holders w1 pid"
    by (auto simp: holders_def holds_page_null)
  then have "holders w' pid = holders w1 pid"
    using holders_update [of w' w1 a None pid] by (simp add: w' holds_page_def)
  with 1 show ?thesis by (simp add: owed_def unpin_calls_def w')
qed

lemma guard_step_owed:
  assumes fin: "finite (holders w pid)" and step: "guard_step w x = Inr w'"
  shows "finite (holders w' pid) \<and> owed w' pid = owed w pid"
proof (cases x)
  case (MoveConstruct a b)
  with step have "move_construct_at w a b = Inr w'" by simp
  with fin show ?thesis by (rule move_construct_at_owed)
next
  case (MoveAssign a b)
  with step have "move_assign_at w a b = Inr w'" by simp
  with fin show ?thesis by (rule move_assign_at_owed)
next
  case (Drop a)
  with step have "Drop_at w a = Inr w'" by simp
  with fin show ?thesis by (rule Drop_at_owed)
next
  case (Destroy a)
  with step have "destroy_at w a = Inr w'" by simp
  with fin show ?thesis by (rule destroy_at_owed)
qed

lemma guard_run_owed:
  "finite (holders w pid) \<Longrightarrow> guard_run w xs = Inr w' \<Longrightarrow>
   finite (holders w' pid) \<and> owed w' pid = owed w pid"
proof (induction xs arbitrary: w)
  case Nil
  then show ?case by simp
next
  case (Cons x xs)
  from Cons.prems(2) obtain w1 where s: "guard_step w x = Inr w1" "guard_run w1 xs = Inr w'"
    by (auto split: sum.splits)
  from guard_step_owed [OF Cons.prems(1) s(1)] Cons.IH [OF _ s(2)]
  show ?case by simp
qed

lemma Drop_null: "page g = nullptr \<Longrightarrow> BasicPageGuard_Drop w g = Inr (w, g)"
  by (simp add: BasicPageGuard_Drop_def)

lemma Drop_at_null:
  "guards w a = Some g \<Longrightarrow> page g = nullptr \<Longrightarrow> Drop_at w a = Inr w"
  by (simp add: Drop_at_def Drop_null fun_upd_idem)

lemma Drop_at_idem:
  assumes "Drop_at w a = Inr w'"
  shows "Drop_at w' a = Inr w'"
  using Drop_at_leaves_null [OF assms] by (auto simp: Drop_at_null)

lemma move_assign_at_self:
  "guards w this = Some g \<Longrightarrow> move_assign_at w this this = Inr w"
  by (simp add: move_assign_at_def)

text \<open>
  In a world whose pool is in one of its states and whose guards point to the pool, every
  operation on guards that are alive returns, and the world stays such a world.
\<close>

lemma Drop_at_returns:
  assumes "guards_wf w" "guards w a = Some g"
  shows "\<exists>w'. Drop_at w a = Inr w' \<and> guards_wf w'"
proof (cases "page g")
  case nullptr
  with assms(2) have "Drop_at w a = Inr w" by (rule Drop_at_null)
  with assms(1) show ?thesis by simp
next
  case (Ptr frame)
  with assms have "bpm g \<noteq> nullptr"
    by (fastforce simp: guards_wf_def)
  then obtain u where u: "bpm g = Ptr u"
    by (cases "bpm g") simp_all
  from assms(1) have inv: "pool_inv (pool w)" by (simp add: guards_wf_def)
  let ?pid = "page_id (pages (pool w) frame)"
  from UnpinPage_returns [OF inv, of ?pid "guard_is_dirty g"]
  obtain b' ret where un: "UnpinPage (pool w) ?pid (guard_is_dirty g) = Inr (b', ret)"
    by (metis surj_pair)
  let ?w' = "w\<lparr>pool := b', calls := calls w @ [UnpinPage_called ?pid (guard_is_dirty g)],
               guards := (guards w)(a \<mapsto> g\<lparr>page := nullptr, bpm := nullptr,
                                            guard_is_dirty := False\<rparr>)\<rparr>"
  have "Drop_at w a = Inr ?w'"
    using assms(2) Ptr u un
    by (simp add: Drop_at_def BasicPageGuard_Drop_def call_UnpinPage_def)
  moreover have "guards_wf ?w'"
    using assms(1) pool_inv_UnpinPage [OF inv un] by (auto simp: guards_wf_def)
  ultimately show ?thesis by blast
qed

lemma guard_step_returns:
  assumes wf: "guards_wf w"
    and alive: "case x of
        MoveConstruct this that \<Rightarrow> guards w this = None \<and> guards w that \<noteq> None
      | MoveAssign this that \<Rightarrow> guards w this \<noteq> None \<and> guards w that \<noteq> None
      | Drop this \<Rightarrow> guards w this \<noteq> None
      | Destroy this \<Rightarrow> guards w this \<noteq> None"
  shows "\<exists>w'. guard_step w x = Inr w' \<and> guards_wf w'"
proof (cases x)
  case (MoveConstruct this that)
  with alive obtain g where g: "guards w this = None" "guards w that = Some g" by auto
  then have "move_construct_at w this that =
      Inr (w\<lparr>guards := (guards w)(this \<mapsto> fst (BasicPageGuard_move g),
                                    that \<mapsto> snd (BasicPageGuard_move g))\<rparr>)"
    by (simp add: move_construct_at_def)
  moreover have "guards_wf (w\<lparr>guards := (guards w)(this \<mapsto> fst (BasicPageGuard_move g),
                                    that \<mapsto> snd (BasicPageGuard_move g))\<rparr>)"
    using wf g(2) by (auto simp: guards_wf_def BasicPageGuard_move_def)
  ultimately show ?thesis using MoveConstruct by simp
next
  case (MoveAssign this that)
  with alive obtain g1 g2 where g: "guards w this = Some g1" "guards w that = Some g2" by auto
  show ?thesis
  proof (cases "this = that")
    case True
    with g wf MoveAssign show ?thesis by (simp add: move_assign_at_def)
  next
    case False
    from Drop_at_returns [OF wf g(1)] obtain w1 where w1: "Drop_at w this = Inr w1" "guards_wf w1"
      by blast
    from Drop_at_leaves_null [OF w1(1)] obtain h1 where h1: "guards w1 this = Some h1" by blast
    have h2: "guards w1 that = Some g2"
      using Drop_at_others [OF w1(1), of that] False g(2) by simp
    let ?w' = "w1\<lparr>guards := (guards w1)
                (this \<mapsto> h1\<lparr>bpm := bpm g2, page := page g2, guard_is_dirty := guard_is_dirty g2\<rparr>,
                 that \<mapsto> g2\<lparr>bpm := nullptr, page := nullptr, guard_is_dirty := False\<rparr>)\<rparr>"
    have "move_assign_at w this that = Inr ?w'"
      using g False w1(1) h1 h2 by (simp add: move_assign_at_def)
    moreover have "guards_wf ?w'"
      using w1(2) h2 by (auto simp: guards_wf_def)
    ultimately show ?thesis using MoveAssign by simp
  qed
next
  case (Drop this)
  with alive obtain g where "guards w this = Some g" by auto
  from Drop_at_returns [OF wf this] Drop show ?thesis by simp
next
  case (Destroy this)
  with alive obtain g where "guards w this = Some g" by auto
  from Drop_at_returns [OF wf this] obtain w1 where w1: "Drop_at w this = Inr w1" "guards_wf w1"
    by blast
  then have "destroy_at w this = Inr (w1\<lparr>guards := (guards w1)(this := None)\<rparr>)"
    by (simp add: destroy_at_def)
  moreover have "guards_wf (w1\<lparr>guards := (guards w1)(this := None)\<rparr>)"
    using w1(2) by (auto simp: guards_wf_def)
  ultimately show ?thesis using Destroy by simp
qed

text \<open>What each operation does, as an equation, and that the runs of a program return.\<close>

lemma guard_all_fields:
  fixes g :: BasicPageGuard
  shows "g\<lparr>bpm := a, page := b, guard_is_dirty := c\<rparr> =
           \<lparr>bpm = a, page = b, guard_is_dirty = c\<rparr>"
    and "g\<lparr>page := b, bpm := a, guard_is_dirty := c\<rparr> =
           \<lparr>bpm = a, page = b, guard_is_dirty = c\<rparr>"
    and "\<lparr>bpm = bpm g, page = page g, guard_is_dirty = guard_is_dirty g\<rparr> = g"
  by (cases g; simp)+

lemma move_construct_at_eq:
  assumes "guards w this = None" "guards w that = Some g"
  shows "move_construct_at w this that =
           Inr (w\<lparr>guards := (guards w)(this \<mapsto> g, that \<mapsto> null_guard)\<rparr>)"
  using assms
  by (simp add: move_construct_at_def BasicPageGuard_move_def null_guard_def guard_all_fields)

lemma Drop_at_holding:
  assumes wf: "guards_wf w" and g: "guards w this = Some g" and p: "page g = Ptr frame"
  shows "\<exists>b' ret.
      UnpinPage (pool w) (page_id (pages (pool w) frame)) (guard_is_dirty g) = Inr (b', ret) \<and>
      Drop_at w this =
        Inr (w\<lparr>pool := b',
                calls := calls w @
                  [UnpinPage_called (page_id (pages (pool w) frame)) (guard_is_dirty g)],
                guards := (guards w)(this \<mapsto> null_guard)\<rparr>)"
proof -
  from wf g p have "bpm g \<noteq> nullptr"
    by (fastforce simp: guards_wf_def)
  then obtain u where u: "bpm g = Ptr u"
    by (cases "bpm g") simp_all
  from wf have inv: "pool_inv (pool w)" by (simp add: guards_wf_def)
  let ?pid = "page_id (pages (pool w) frame)"
  from UnpinPage_returns [OF inv, of ?pid "guard_is_dirty g"]
  obtain b' ret where un: "UnpinPage (pool w) ?pid (guard_is_dirty g) = Inr (b', ret)"
    by (metis surj_pair)
  have "Drop_at w this =
        Inr (w\<lparr>pool := b', calls := calls w @ [UnpinPage_called ?pid (guard_is_dirty g)],
                guards := (guards w)(this \<mapsto> null_guard)\<rparr>)"
    using g p u un
    by (simp add: Drop_at_def BasicPageGuard_Drop_def call_UnpinPage_def null_guard_def
        guard_all_fields)
  with un show ?thesis by blast
qed

lemma destroy_at_eq:
  assumes "Drop_at w this = Inr w1"
  shows "destroy_at w this = Inr (w1\<lparr>guards := (guards w1)(this := None)\<rparr>)"
  using assms by (simp add: destroy_at_def)

lemma move_assign_at_eq:
  assumes wf: "guards_wf w" and g1: "guards w this = Some g1" and g: "guards w that = Some g"
    and neq: "this \<noteq> that"
  shows "\<exists>w1. Drop_at w this = Inr w1 \<and>
           move_assign_at w this that =
             Inr (w1\<lparr>guards := (guards w1)(this \<mapsto> g, that \<mapsto> null_guard)\<rparr>)"
proof -
  from Drop_at_returns [OF wf g1] obtain w1 where w1: "Drop_at w this = Inr w1"
    by blast
  from Drop_at_leaves_null [OF w1] obtain h1 where h1: "guards w1 this = Some h1" by blast
  have h2: "guards w1 that = Some g"
    using Drop_at_others [OF w1, of that] neq g by simp
  have "move_assign_at w this that =
      Inr (w1\<lparr>guards := (guards w1)(this \<mapsto> g, that \<mapsto> null_guard)\<rparr>)"
    using g1 g neq w1 h1 h2
    by (simp add: move_assign_at_def guard_all_fields null_guard_def)
  with w1 show ?thesis by blast
qed

lemma Drop_at_dom: "Drop_at w a = Inr w' \<Longrightarrow> dom (guards w') = dom (guards w)"
  by (cases rule: Drop_at_cases) (auto split: if_splits)

lemma guard_step_dom:
  assumes "guard_step w x = Inr w'"
  shows "dom (guards w') =
     (case x of
        MoveConstruct this that \<Rightarrow> insert this (dom (guards w))
      | MoveAssign this that \<Rightarrow> dom (guards w)
      | Drop this \<Rightarrow> dom (guards w)
      | Destroy this \<Rightarrow> dom (guards w) - {this})"
proof (cases x)
  case (MoveConstruct this that)
  with assms show ?thesis
    by (auto simp: move_construct_at_def split: option.splits if_splits)
next
  case (MoveAssign this that)
  show ?thesis
  proof (cases "this = that")
    case True
    with assms MoveAssign show ?thesis
      by (auto simp: move_assign_at_def split: option.splits)
  next
    case False
    with assms MoveAssign obtain w1 g1 g2 where d: "Drop_at w this = Inr w1"
      and g: "guards w1 this = Some g1" "guards w1 that = Some g2"
      and w': "guards w' = (guards w1)
                (this \<mapsto> g1\<lparr>bpm := bpm g2, page := page g2, guard_is_dirty := guard_is_dirty g2\<rparr>,
                 that \<mapsto> g2\<lparr>bpm := nullptr, page := nullptr, guard_is_dirty := False\<rparr>)"
      by (auto simp: move_assign_at_def split: option.splits sum.splits)
    from g have "this \<in> dom (guards w1)" "that \<in> dom (guards w1)" by auto
    then have "dom (guards w') = dom (guards w1)" by (auto simp: w')
    with Drop_at_dom [OF d] MoveAssign show ?thesis by simp
  qed
next
  case (Drop this)
  with assms Drop_at_dom show ?thesis by simp
next
  case (Destroy this)
  with assms obtain w1 where d: "Drop_at w this = Inr w1"
    and w': "w' = w1\<lparr>guards := (guards w1)(this := None)\<rparr>"
    by (auto simp: destroy_at_def split: sum.splits)
  with Drop_at_dom [OF d] Destroy show ?thesis by auto
qed

lemma guard_run_returns:
  "guards_wf w \<Longrightarrow> run_ok (dom (guards w)) ops \<Longrightarrow>
   \<exists>w'. guard_run w ops = Inr w' \<and> guards_wf w'"
proof (induction ops arbitrary: w)
  case Nil
  then show ?case by simp
next
  case (Cons x ops)
  have alive: "case x of
        MoveConstruct this that \<Rightarrow> guards w this = None \<and> guards w that \<noteq> None
      | MoveAssign this that \<Rightarrow> guards w this \<noteq> None \<and> guards w that \<noteq> None
      | Drop this \<Rightarrow> guards w this \<noteq> None
      | Destroy this \<Rightarrow> guards w this \<noteq> None"
    using Cons.prems(2) by (cases x) (auto simp: dom_def)
  from guard_step_returns [OF Cons.prems(1) alive]
  obtain w1 where w1: "guard_step w x = Inr w1" "guards_wf w1" by blast
  have "run_ok (dom (guards w1)) ops"
    using Cons.prems(2) guard_step_dom [OF w1(1)] by (cases x) simp_all
  from Cons.IH [OF w1(2) this] w1(1) show ?case by simp
qed

lemma holders_dom: "holders w pid \<subseteq> dom (guards w)"
  by (auto simp: holders_def holds_page_def split: option.splits)

text \<open>
  Claim C9. The move constructor makes the target the guard the source was and leaves the
  source holding nothing. The move assignment between two guards first drops the target's
  own frame and then does the same; assigning a guard to itself changes nothing. \<open>Drop\<close>
  and the destructor of a guard that holds nothing change no state and call no
  \<open>UnpinPage\<close>, the destructor ending the object; \<open>Drop\<close> and the destructor of a guard
  that holds a frame call \<open>UnpinPage\<close> once for the frame's page with the guard's dirty flag
  and leave the guard holding nothing. \<open>Drop\<close> a second time changes nothing. Every run of
  move constructions, move assignments, drops and destructions on guards that are alive
  returns, and along it the number of guards holding a frame of a page plus the number of
  \<open>UnpinPage\<close> calls made for that page stays the same: once every guard has been
  destroyed, \<open>UnpinPage\<close> has been called for the page exactly as many times as guards
  held it at the start.
\<close>

theorem BasicPageGuard_move_unpins_once:
  "(guards w this = None \<and> guards w that = Some g \<longrightarrow>
      move_construct_at w this that =
        Inr (w\<lparr>guards := (guards w)(this \<mapsto> g, that \<mapsto> null_guard)\<rparr>)) \<and>
   (guards_wf w \<and> guards w this = Some g1 \<and> guards w that = Some g \<and> this \<noteq> that \<longrightarrow>
      (\<exists>w1. Drop_at w this = Inr w1 \<and>
         move_assign_at w this that =
           Inr (w1\<lparr>guards := (guards w1)(this \<mapsto> g, that \<mapsto> null_guard)\<rparr>))) \<and>
   (guards w this = Some g \<longrightarrow> move_assign_at w this this = Inr w) \<and>
   (guards w this = Some null_guard \<longrightarrow>
      Drop_at w this = Inr w \<and>
      destroy_at w this = Inr (w\<lparr>guards := (guards w)(this := None)\<rparr>)) \<and>
   (guards_wf w \<and> guards w this = Some g \<and> page g = Ptr frame \<longrightarrow>
      (\<exists>b' ret.
         UnpinPage (pool w) (page_id (pages (pool w) frame)) (guard_is_dirty g) =
           Inr (b', ret) \<and>
         Drop_at w this =
           Inr (w\<lparr>pool := b',
                   calls := calls w @
                     [UnpinPage_called (page_id (pages (pool w) frame)) (guard_is_dirty g)],
                   guards := (guards w)(this \<mapsto> null_guard)\<rparr>) \<and>
         destroy_at w this =
           Inr (w\<lparr>pool := b',
                   calls := calls w @
                     [UnpinPage_called (page_id (pages (pool w) frame)) (guard_is_dirty g)],
                   guards := (guards w)(this := None)\<rparr>))) \<and>
   (Drop_at w this = Inr w' \<longrightarrow> Drop_at w' this = Inr w') \<and>
   (guards_wf w \<and> run_ok (dom (guards w)) ops \<longrightarrow>
      (\<exists>w'. guard_run w ops = Inr w' \<and> guards_wf w')) \<and>
   (finite (holders w pid) \<and> guard_run w ops = Inr w' \<longrightarrow>
      finite (holders w' pid) \<and>
      card (holders w' pid) + unpin_calls w' pid = card (holders w pid) + unpin_calls w pid \<and>
      (dom (guards w') = {} \<longrightarrow>
         unpin_calls w' pid = unpin_calls w pid + card (holders w pid)))"
proof (intro conjI)
  show "guards w this = None \<and> guards w that = Some g \<longrightarrow>
      move_construct_at w this that =
        Inr (w\<lparr>guards := (guards w)(this \<mapsto> g, that \<mapsto> null_guard)\<rparr>)"
    by (simp add: move_construct_at_eq)
next
  show "guards_wf w \<and> guards w this = Some g1 \<and> guards w that = Some g \<and> this \<noteq> that \<longrightarrow>
      (\<exists>w1. Drop_at w this = Inr w1 \<and>
         move_assign_at w this that =
           Inr (w1\<lparr>guards := (guards w1)(this \<mapsto> g, that \<mapsto> null_guard)\<rparr>))"
    using move_assign_at_eq [of w this g1 that g] by blast
next
  show "guards w this = Some g \<longrightarrow> move_assign_at w this this = Inr w"
    by (simp add: move_assign_at_self)
next
  show "guards w this = Some null_guard \<longrightarrow>
      Drop_at w this = Inr w \<and>
      destroy_at w this = Inr (w\<lparr>guards := (guards w)(this := None)\<rparr>)"
  proof
    assume n: "guards w this = Some null_guard"
    then have d: "Drop_at w this = Inr w"
      by (rule Drop_at_null) (simp add: null_guard_def)
    with destroy_at_eq [OF d] show "Drop_at w this = Inr w \<and>
        destroy_at w this = Inr (w\<lparr>guards := (guards w)(this := None)\<rparr>)"
      by simp
  qed
next
  show "guards_wf w \<and> guards w this = Some g \<and> page g = Ptr frame \<longrightarrow>
      (\<exists>b' ret.
         UnpinPage (pool w) (page_id (pages (pool w) frame)) (guard_is_dirty g) =
           Inr (b', ret) \<and>
         Drop_at w this =
           Inr (w\<lparr>pool := b',
                   calls := calls w @
                     [UnpinPage_called (page_id (pages (pool w) frame)) (guard_is_dirty g)],
                   guards := (guards w)(this \<mapsto> null_guard)\<rparr>) \<and>
         destroy_at w this =
           Inr (w\<lparr>pool := b',
                   calls := calls w @
                     [UnpinPage_called (page_id (pages (pool w) frame)) (guard_is_dirty g)],
                   guards := (guards w)(this := None)\<rparr>))"
  proof
    assume a: "guards_wf w \<and> guards w this = Some g \<and> page g = Ptr frame"
    let ?pid = "page_id (pages (pool w) frame)"
    from a Drop_at_holding [of w this g frame]
    obtain b' ret where un: "UnpinPage (pool w) ?pid (guard_is_dirty g) = Inr (b', ret)"
      and d: "Drop_at w this =
        Inr (w\<lparr>pool := b', calls := calls w @ [UnpinPage_called ?pid (guard_is_dirty g)],
                guards := (guards w)(this \<mapsto> null_guard)\<rparr>)"
      by blast
    from destroy_at_eq [OF d]
    have "destroy_at w this =
        Inr (w\<lparr>pool := b', calls := calls w @ [UnpinPage_called ?pid (guard_is_dirty g)],
                guards := (guards w)(this := None)\<rparr>)"
      by simp
    with un d show "\<exists>b' ret.
         UnpinPage (pool w) ?pid (guard_is_dirty g) = Inr (b', ret) \<and>
         Drop_at w this =
           Inr (w\<lparr>pool := b', calls := calls w @ [UnpinPage_called ?pid (guard_is_dirty g)],
                   guards := (guards w)(this \<mapsto> null_guard)\<rparr>) \<and>
         destroy_at w this =
           Inr (w\<lparr>pool := b', calls := calls w @ [UnpinPage_called ?pid (guard_is_dirty g)],
                   guards := (guards w)(this := None)\<rparr>)"
      by blast
  qed
next
  show "Drop_at w this = Inr w' \<longrightarrow> Drop_at w' this = Inr w'"
    by (simp add: Drop_at_idem)
next
  show "guards_wf w \<and> run_ok (dom (guards w)) ops \<longrightarrow>
      (\<exists>w'. guard_run w ops = Inr w' \<and> guards_wf w')"
    using guard_run_returns [of w ops] by blast
next
  show "finite (holders w pid) \<and> guard_run w ops = Inr w' \<longrightarrow>
      finite (holders w' pid) \<and>
      card (holders w' pid) + unpin_calls w' pid = card (holders w pid) + unpin_calls w pid \<and>
      (dom (guards w') = {} \<longrightarrow>
         unpin_calls w' pid = unpin_calls w pid + card (holders w pid))"
  proof
    assume a: "finite (holders w pid) \<and> guard_run w ops = Inr w'"
    then have o: "finite (holders w' pid)" "owed w' pid = owed w pid"
      using guard_run_owed [of w pid ops w'] by simp_all
    have "unpin_calls w' pid = unpin_calls w pid + card (holders w pid)"
      if "dom (guards w') = {}"
    proof -
      from that holders_dom [of w' pid] have "holders w' pid = {}" by simp
      with o(2) show ?thesis by (simp add: owed_def)
    qed
    with o show "finite (holders w' pid) \<and>
      card (holders w' pid) + unpin_calls w' pid = card (holders w pid) + unpin_calls w pid \<and>
      (dom (guards w') = {} \<longrightarrow>
         unpin_calls w' pid = unpin_calls w pid + card (holders w pid))"
      by (simp add: owed_def)
  qed
qed

text \<open>
  Two guards hold frame 0, pinned twice. Assigning one to the other unpins once and hands
  the frame over; destroying a holder unpins once; after the whole run \<open>UnpinPage\<close> has
  been called twice, no guard is left and the pin count is 0.
\<close>

theorem BasicPageGuard_move_unpins_once_witness:
  "guards_wf two_holders \<and> run_ok (dom (guards two_holders)) handover \<and>
   finite (holders two_holders 0) \<and> card (holders two_holders 0) = 2 \<and>
   unpin_calls two_holders 0 = 0 \<and> pin_count (pages (pool two_holders) 0) = 2 \<and>
   (\<exists>w'. move_assign_at two_holders 1 0 = Inr w' \<and>
      guards w' 1 = Some holding0 \<and> guards w' 0 = Some null_guard \<and>
      calls w' = [UnpinPage_called 0 False] \<and> pin_count (pages (pool w') 0) = 1) \<and>
   (\<exists>w'. destroy_at two_holders 0 = Inr w' \<and> guards w' 0 = None \<and>
      calls w' = [UnpinPage_called 0 False] \<and> pin_count (pages (pool w') 0) = 1) \<and>
   (\<exists>w'. guard_run two_holders handover = Inr w' \<and>
      dom (guards w') = {} \<and>
      calls w' = [UnpinPage_called 0 False, UnpinPage_called 0 False] \<and>
      unpin_calls w' 0 = 2 \<and>
      pin_count (pages (pool w') 0) = 0)"
proof -
  have g: "guards two_holders 0 = Some holding0" "guards two_holders 1 = Some holding0"
    "page holding0 = Ptr 0" "guard_is_dirty holding0 = False" "calls two_holders = []"
    by (simp_all add: guard_defs)
  have wf: "guards_wf two_holders"
    by (simp add: guards_wf_def two_holders_def pool_inv_twice_pinned holding0_def
        BasicPageGuard_new_def)
  have ok: "run_ok (dom (guards two_holders)) handover"
    by (simp add: two_holders_def handover_def)
  have h: "holders two_holders 0 = {0, 1}"
    by (auto simp: holders_def holds_page_def guard_defs scenario_defs pool_defs replacer_defs
        Let_def split: if_splits)
  have u: "unpin_calls two_holders 0 = 0"
    by (simp add: unpin_calls_def two_holders_def)
  have p: "pin_count (pages (pool two_holders) 0) = 2" "page_id (pages (pool two_holders) 0) = 0"
    by (simp_all add: two_holders_def scenario_defs pool_defs replacer_defs Let_def)
  obtain b1 where b1: "UnpinPage (pool two_holders) 0 False = Inr (b1, True)"
    "pin_count (pages b1 0) = 1"
    by (simp add: two_holders_def scenario_defs pool_defs replacer_defs Let_def)
  note main = BasicPageGuard_move_unpins_once
  have d1: "Drop_at two_holders 1 =
      Inr (two_holders\<lparr>pool := b1, calls := [UnpinPage_called 0 False],
                        guards := (guards two_holders)(1 \<mapsto> null_guard)\<rparr>)"
    using main [of two_holders 1 0 holding0 holding0 0] wf g p(2) b1 by simp
  have "\<exists>w1. Drop_at two_holders 1 = Inr w1 \<and>
      move_assign_at two_holders 1 0 =
        Inr (w1\<lparr>guards := (guards w1)(1 \<mapsto> holding0, 0 \<mapsto> null_guard)\<rparr>)"
    using main [of two_holders 1 0 holding0 holding0 0] wf g by simp
  with d1 have "move_assign_at two_holders 1 0 =
      Inr (two_holders\<lparr>pool := b1, calls := [UnpinPage_called 0 False],
             guards := (guards two_holders)(1 \<mapsto> holding0, 0 \<mapsto> null_guard)\<rparr>)"
    by auto
  with b1(2) have assign: "\<exists>w'. move_assign_at two_holders 1 0 = Inr w' \<and>
      guards w' 1 = Some holding0 \<and> guards w' 0 = Some null_guard \<and>
      calls w' = [UnpinPage_called 0 False] \<and> pin_count (pages (pool w') 0) = 1"
    by simp
  have "destroy_at two_holders 0 =
      Inr (two_holders\<lparr>pool := b1, calls := [UnpinPage_called 0 False],
                        guards := (guards two_holders)(0 := None)\<rparr>)"
    using main [of two_holders 0 0 holding0 holding0 0] wf g p(2) b1 by simp
  with b1(2) have destroy: "\<exists>w'. destroy_at two_holders 0 = Inr w' \<and> guards w' 0 = None \<and>
      calls w' = [UnpinPage_called 0 False] \<and> pin_count (pages (pool w') 0) = 1"
    by simp
  from main [of two_holders 0 0 holding0 holding0 0 _ handover] wf ok
  obtain w' where run: "guard_run two_holders handover = Inr w'"
    by blast
  have ev: "\<exists>w. guard_run two_holders handover = Inr w \<and> dom (guards w) = {} \<and>
      calls w = [UnpinPage_called 0 False, UnpinPage_called 0 False] \<and>
      pin_count (pages (pool w) 0) = 0"
    by (simp add: guard_defs scenario_defs pool_defs replacer_defs Let_def)
  with run have e: "dom (guards w') = {}"
    "calls w' = [UnpinPage_called 0 False, UnpinPage_called 0 False]"
    "pin_count (pages (pool w') 0) = 0"
    by auto
  from main [of two_holders 0 0 holding0 holding0 0 w' handover 0] h u run e(1)
  have "unpin_calls w' 0 = 2" by simp
  with wf ok h u p(1) assign destroy run e show ?thesis
    by auto
qed

section \<open>Properties of the disk scheduler's worker\<close>

lemma serve_unset:
  assumes "callback request = None" "always_returns dm"
  shows "\<exists>d' served. serve dm d request = Inr (d', served) \<and> callback served = Some True \<and>
      req_page_id served = req_page_id request \<and> is_write served = is_write request"
proof -
  let ?io = "if is_write request
             then WritePage dm d (req_page_id request) (req_data request)
             else ReadPage dm d (req_page_id request) (req_data request)"
  from assms(2) have "?io \<noteq> Throws"
    by (simp add: always_returns_def)
  then obtain d1 buffer ok where "?io = Returns d1 buffer ok"
    by (cases ?io) simp_all
  with assms(1) show ?thesis
    by (simp add: serve_def set_value_def)
qed

text \<open>
  Claim C8, as the code has it. For every disk manager whose calls return and every queue
  whose requests come with fresh promises, the worker serves the requests before the first
  \<open>std::nullopt\<close> in order and sets the promise of each exactly once, to true, whether the
  disk manager's call succeeded or failed; it exits when the queue holds a \<open>std::nullopt\<close>
  and otherwise waits for more.
\<close>

theorem worker_signals_success_once:
  assumes "unset queue" and "always_returns dm"
  shows "\<exists>d' served. StartWorkerThread dm d queue =
            Inr (d', served, if None \<in> set queue then Exited else Waiting) \<and>
          map callback served = map (\<lambda>_. Some True) (pending queue) \<and>
          map req_page_id served = map req_page_id (pending queue) \<and>
          map is_write served = map is_write (pending queue)"
  using assms(1)
proof (induction queue arbitrary: d)
  case Nil
  then show ?case by simp
next
  case (Cons x queue)
  show ?case
  proof (cases x)
    case None
    then show ?thesis by simp
  next
    case (Some request)
    with Cons.prems have u: "callback request = None" "unset queue"
      by (simp_all add: unset_def)
    from serve_unset [OF u(1) assms(2), of d]
    obtain d1 s where s: "serve dm d request = Inr (d1, s)" "callback s = Some True"
      "req_page_id s = req_page_id request" "is_write s = is_write request"
      by blast
    from Cons.IH [OF u(2), of d1]
    obtain d2 rest where r: "StartWorkerThread dm d1 queue =
        Inr (d2, rest, if None \<in> set queue then Exited else Waiting)"
      "map callback rest = map (\<lambda>_. Some True) (pending queue)"
      "map req_page_id rest = map req_page_id (pending queue)"
      "map is_write rest = map is_write (pending queue)"
      by blast
    from Some s r show ?thesis by simp
  qed
qed

text \<open>Two requests and the sentinel, on a disk manager whose calls return having failed.\<close>

theorem worker_signals_success_once_witness:
  "unset [Some write3, Some read4, None] \<and> always_returns failing_disk \<and>
   (\<exists>d' served. StartWorkerThread failing_disk () [Some write3, Some read4, None] =
      Inr (d', served, Exited) \<and> map callback served = [Some True, Some True])"
proof -
  have u: "unset [Some write3, Some read4, None]"
    by (simp add: unset_def write3_def read4_def)
  have r: "always_returns failing_disk"
    by (simp add: always_returns_def failing_disk_def)
  from worker_signals_success_once [OF u r, of "()"] u r show ?thesis
    by auto
qed

text \<open>
  Claim C8 as it is stated fails. With a disk manager whose calls return having failed, the
  promises of a write and of a read are both set to true. With a disk manager whose call
  throws, the worker ends on the request, before the sentinel, and the promise is never set.
\<close>

theorem worker_signals_failure_counterexample:
  "WritePage failing_disk () 3 [1, 2] = Returns () [1, 2] False \<and>
   ReadPage failing_disk () 4 [0, 0] = Returns () [0, 0] False \<and>
   StartWorkerThread failing_disk () [Some write3, Some read4, None] =
     Inr ((), [write3\<lparr>callback := Some True\<rparr>, read4\<lparr>callback := Some True\<rparr>], Exited) \<and>
   StartWorkerThread throwing_disk () [Some write3, Some read4, None] = Inl UNCAUGHT_EXCEPTION"
  by (simp add: failing_disk_def throwing_disk_def write3_def read4_def serve_def set_value_def)

text \<open>A request whose promise already has a value also ends the worker.\<close>

lemma worker_ends_on_satisfied_promise:
  "StartWorkerThread failing_disk () [Some satisfied5, Some read4, None] =
     Inl PROMISE_ALREADY_SATISFIED"
  by (simp add: failing_disk_def satisfied5_def read4_def serve_def set_value_def)

end
